theory Spec2Isabelle
  imports Main "HOL-Library.Word" "HOL-Library.Sublist" "HOL-Library.Multiset"
begin

unbundle bit_operations_syntax

section \<open>The wildcard matcher\<close>

text \<open>
  \<^verbatim>\<open>wildcardMatch(text, pattern)\<close> scans both strings with four indices. The indices are
  \<open>size_t\<close> values that never exceed the length of the string they point into, so they
  are natural numbers here; the sentinel \<open>string::npos\<close> of \<open>starIdx\<close> is \<open>None\<close>. Every
  subscript of the source is guarded by a length test, and the model keeps those tests
  in the same order.
\<close>

text \<open>The second loop of the source: skip the \<open>*\<close> characters left in the pattern.\<close>

function skip_stars :: "string \<Rightarrow> nat \<Rightarrow> nat" where
  "skip_stars pattern pIdx =
     (if pIdx < length pattern \<and> pattern ! pIdx = CHR ''*''
      then skip_stars pattern (pIdx + 1) else pIdx)"
  by pat_completeness auto
termination
  by (relation "measure (\<lambda>(pattern, pIdx). length pattern - pIdx)") auto

text \<open>
  Two quantities used only to show that the first loop stops: whether the recorded star
  lies before the pattern index and the recorded restart position does not lie after the
  text index, and the position just after the recorded star.
\<close>

definition scan_consistent :: "nat \<Rightarrow> nat \<Rightarrow> nat option \<Rightarrow> nat \<Rightarrow> bool" where
  "scan_consistent tIdx pIdx starIdx matchIdx =
     (case starIdx of None \<Rightarrow> True | Some s \<Rightarrow> s < pIdx \<and> matchIdx \<le> tIdx)"

definition star_rank :: "nat option \<Rightarrow> nat" where
  "star_rank starIdx = (case starIdx of None \<Rightarrow> 0 | Some s \<Rightarrow> s + 1)"

text \<open>
  The first loop, one recursive call per iteration, followed by the second loop and the
  final comparison. The branches are those of the source, in its order: a \<open>?\<close> or an equal
  character advances both indices (also when that equal character is a \<open>*\<close>), a \<open>*\<close>
  is recorded, a mismatch restarts after the recorded star one text position further,
  and a mismatch without a recorded star returns \<open>false\<close>.
\<close>

function wildcardMatch_loop ::
  "string \<Rightarrow> string \<Rightarrow> nat \<Rightarrow> nat \<Rightarrow> nat option \<Rightarrow> nat \<Rightarrow> bool" where
  "wildcardMatch_loop text pattern tIdx pIdx starIdx matchIdx =
     (if tIdx < length text then
        if pIdx < length pattern \<and>
           (pattern ! pIdx = CHR ''?'' \<or> pattern ! pIdx = text ! tIdx)
        then wildcardMatch_loop text pattern (tIdx + 1) (pIdx + 1) starIdx matchIdx
        else if pIdx < length pattern \<and> pattern ! pIdx = CHR ''*''
        then wildcardMatch_loop text pattern tIdx (pIdx + 1) (Some pIdx) tIdx
        else (case starIdx of
                Some s \<Rightarrow>
                  wildcardMatch_loop text pattern (matchIdx + 1) (s + 1) starIdx (matchIdx + 1)
              | None \<Rightarrow> False)
      else skip_stars pattern pIdx = length pattern)"
  by pat_completeness auto
termination
  by (relation "measures
        [\<lambda>(text, pattern, tIdx, pIdx, starIdx, matchIdx).
            if scan_consistent tIdx pIdx starIdx matchIdx then 0 else 1,
         \<lambda>(text, pattern, tIdx, pIdx, starIdx, matchIdx). length pattern - star_rank starIdx,
         \<lambda>(text, pattern, tIdx, pIdx, starIdx, matchIdx). length text - matchIdx,
         \<lambda>(text, pattern, tIdx, pIdx, starIdx, matchIdx). length text - tIdx]")
     (auto simp: scan_consistent_def star_rank_def split: option.splits)

definition wildcardMatch :: "string \<Rightarrow> string \<Rightarrow> bool" where
  "wildcardMatch text pattern = wildcardMatch_loop text pattern 0 0 None 0"

text \<open>
  The matching relation in the words of the specification, for comparison with the
  scan: \<open>*\<close> stands for zero or more arbitrary characters, \<open>?\<close> for exactly one, any
  other character for itself, and the whole pattern has to account for the whole
  candidate.
\<close>

fun glob_match :: "string \<Rightarrow> string \<Rightarrow> bool" where
  "glob_match [] [] = True"
| "glob_match [] (c # cs) = False"
| "glob_match (p # ps) [] = (p = CHR ''*'' \<and> glob_match ps [])"
| "glob_match (p # ps) (c # cs) =
     (if p = CHR ''*'' then glob_match ps (c # cs) \<or> glob_match (p # ps) cs
      else (p = CHR ''?'' \<or> p = c) \<and> glob_match ps cs)"

text \<open>
  What a state of the scan still promises: the rest of the pattern matches the rest of
  the text (\<open>wm_cur\<close>), or the pattern after the recorded star matches the text from a
  later restart position (\<open>wm_alt\<close>). \<open>wm_inv\<close> relates the indices of a reachable state:
  since the recorded star, the pattern and the text advanced by the same number of
  characters, none of them a \<open>*\<close>.
\<close>

definition wm_cur :: "string \<Rightarrow> string \<Rightarrow> nat \<Rightarrow> nat \<Rightarrow> bool" where
  "wm_cur text pattern t p = glob_match (drop p pattern) (drop t text)"

definition wm_alt :: "string \<Rightarrow> string \<Rightarrow> nat option \<Rightarrow> nat \<Rightarrow> bool" where
  "wm_alt text pattern star m =
     (case star of None \<Rightarrow> False
      | Some s \<Rightarrow> \<exists>m'>m. glob_match (drop (s + 1) pattern) (drop m' text))"

definition wm_inv :: "string \<Rightarrow> nat \<Rightarrow> nat \<Rightarrow> nat option \<Rightarrow> nat \<Rightarrow> bool" where
  "wm_inv pattern t p star m =
     (p \<le> length pattern \<and>
      (case star of None \<Rightarrow> True
       | Some s \<Rightarrow> m \<le> t \<and> p = s + 1 + (t - m) \<and>
                  CHR ''*'' \<notin> set (take (t - m) (drop (s + 1) pattern))))"

section \<open>Input streams and line extraction\<close>

text \<open>
  An input file is opened in binary mode, so a stream is the sequence of bytes not yet
  read together with the two state bits the program looks at. \<open>f.good()\<close> holds when
  neither bit is set.
\<close>

definition newline :: char where
  "newline = CHR 0x0A"

record ifstream =
  unread :: string
  eofbit :: bool
  failbit :: bool

definition good :: "ifstream \<Rightarrow> bool" where
  "good f = (\<not> eofbit f \<and> \<not> failbit f)"

text \<open>
  \<^verbatim>\<open>std::getline\<close> extracts characters and appends them to the line until the end of the
  data is reached (which sets \<open>eofbit\<close>) or the next character is the delimiter (which is
  extracted and dropped). The result is the line, the bytes left and whether the end
  of the data was hit.
\<close>

fun extract_line :: "string \<Rightarrow> string \<Rightarrow> string \<times> string \<times> bool" where
  "extract_line [] line = (line, [], True)"
| "extract_line (c # cs) line =
     (if c = newline then (line, cs, False) else extract_line cs (line @ [c]))"

text \<open>
  \<^verbatim>\<open>getline(f, line)\<close> followed by the conversion of the stream to \<open>bool\<close>. On a stream
  that is not good nothing is extracted and \<open>failbit\<close> is set. Otherwise \<open>failbit\<close> is set
  exactly when no character at all was extracted, the delimiter included, which is
  when no byte was left. The conversion to \<open>bool\<close> is \<open>!fail()\<close>: a last line without a
  delimiter sets \<open>eofbit\<close> only and still counts as read.
\<close>

definition getline :: "ifstream \<Rightarrow> bool \<times> string \<times> ifstream" where
  "getline f =
     (if \<not> good f then (False, [], f\<lparr>failbit := True\<rparr>)
      else case extract_line (unread f) [] of
        (line, remaining, hit_eof) \<Rightarrow>
          (unread f \<noteq> [], line,
           \<lparr>unread = remaining, eofbit = hit_eof, failbit = (unread f = [])\<rparr>))"

section \<open>Weave-merge with deduplication\<close>

text \<open>
  Diagnostics written to \<open>cerr\<close>. Only the warnings and errors are kept; the
  informational lines (progress, counts, the name of the output file) are left out.
\<close>

datatype diag =
    Usage
  | Error_output_requires_filename
  | Error_no_input_files
  | Error_no_valid_input_files
  | Error_could_not_open_output string
  | Error_no_files_opened
  | Warning_directory_not_found string
  | Warning_error_processing_pattern string
  | Warning_not_a_regular_file string
  | Warning_could_not_open string
  | Warning_many_files nat

text \<open>
  The mutable state of the merge loop apart from the streams: the set \<open>written\<close> of
  hashes, the bytes sent to the output stream, and the flag \<open>anyAlive\<close>. The hash
  function \<^verbatim>\<open>std::hash<std::string>\<close> belongs to the standard library, not to the
  program, so it is a parameter \<open>hasher\<close> with an arbitrary result type.
\<close>

record 'h weave_state =
  written :: "'h set"
  sink :: string
  anyAlive :: bool

text \<open>
  The deduplication decision for one line that was read:
  \<^verbatim>\<open>if (written.insert(hash).second) out << line << '\n';\<close>
\<close>

definition emit :: "(string \<Rightarrow> 'h) \<Rightarrow> string \<Rightarrow> 'h weave_state \<Rightarrow> 'h weave_state" where
  "emit hasher line st =
     (let hash = hasher line in
      if hash \<in> written st then st
      else st\<lparr>written := insert hash (written st), sink := sink st @ line @ [newline]\<rparr>)"

text \<open>The body of the inner \<open>for\<close> loop for one stream, which is updated in place.\<close>

definition visit :: "(string \<Rightarrow> 'h) \<Rightarrow> ifstream \<Rightarrow> 'h weave_state \<Rightarrow> ifstream \<times> 'h weave_state" where
  "visit hasher f st =
     (if \<not> good f then (f, st)
      else case getline f of
        (ok, line, f') \<Rightarrow>
          if ok then (f', emit hasher line (st\<lparr>anyAlive := True\<rparr>)) else (f', st))"

text \<open>One round: the inner \<open>for\<close> loop over all streams in their fixed order.\<close>

fun weave_round ::
  "(string \<Rightarrow> 'h) \<Rightarrow> ifstream list \<Rightarrow> 'h weave_state \<Rightarrow> ifstream list \<times> 'h weave_state" where
  "weave_round hasher [] st = ([], st)"
| "weave_round hasher (f # fs) st =
     (case visit hasher f st of
        (f', st1) \<Rightarrow>
          (case weave_round hasher fs st1 of
             (fs', st2) \<Rightarrow> (f' # fs', st2)))"

text \<open>
  The outer loop \<^verbatim>\<open>while (anyAlive) { anyAlive = false; ... }\<close>. It stops because a
  round that sets \<open>anyAlive\<close> has extracted at least one byte from some stream.
\<close>

definition unread_total :: "ifstream list \<Rightarrow> nat" where
  "unread_total fs = sum_list (map (\<lambda>f. length (unread f)) fs)"

function weave_loop ::
  "(string \<Rightarrow> 'h) \<Rightarrow> ifstream list \<Rightarrow> 'h weave_state \<Rightarrow> ifstream list \<times> 'h weave_state" where
  "weave_loop hasher fs st =
     (if anyAlive st then
        (case weave_round hasher fs (st\<lparr>anyAlive := False\<rparr>) of
           (fs', st') \<Rightarrow> weave_loop hasher fs' st')
      else (fs, st))"
  by pat_completeness auto
termination
proof (relation "measure (\<lambda>(hasher, fs, st). 2 * unread_total fs + (if anyAlive st then 1 else 0))")
  show "wf (measure (\<lambda>(hasher :: string \<Rightarrow> 'h, fs, st :: 'h weave_state).
          2 * unread_total fs + (if anyAlive st then 1 else 0)))"
    by simp
next
  fix hasher :: "string \<Rightarrow> 'h" and fs fs' :: "ifstream list" and st st' x :: "'h weave_state"
  have visit_le: "length (unread g') \<le> length (unread g) \<and>
        (anyAlive s' \<longrightarrow> anyAlive s \<or> length (unread g') < length (unread g))"
    if "visit hasher g s = (g', s')" for g g' and s s' :: "'h weave_state"
  proof -
    have ex: "length r \<le> length cs \<and> (cs \<noteq> [] \<longrightarrow> length r < length cs)"
      if "extract_line cs acc = (l, r, e)" for cs acc l r e
      using that
    proof (induction cs arbitrary: acc)
      case Nil
      then show ?case by simp
    next
      case (Cons c cs)
      show ?case
      proof (cases "c = newline")
        case True
        with Cons.prems show ?thesis by simp
      next
        case False
        with Cons.prems have "extract_line cs (acc @ [c]) = (l, r, e)" by simp
        from Cons.IH[OF this] show ?thesis by simp
      qed
    qed
    show ?thesis
      using that ex[of "unread g" "[]"]
      by (auto simp: visit_def getline_def emit_def Let_def split: if_splits prod.splits)
  qed
  have round_le: "unread_total gs' \<le> unread_total gs \<and>
        (anyAlive s' \<longrightarrow> anyAlive s \<or> unread_total gs' < unread_total gs)"
    if "weave_round hasher gs s = (gs', s')" for gs gs' and s s' :: "'h weave_state"
    using that
  proof (induction gs arbitrary: s gs' s')
    case Nil
    then show ?case by simp
  next
    case (Cons g gs)
    obtain g1 s1 where v: "visit hasher g s = (g1, s1)" by (cases "visit hasher g s")
    obtain gs1 s2 where r: "weave_round hasher gs s1 = (gs1, s2)"
      by (cases "weave_round hasher gs s1")
    from Cons.prems v r have eq: "gs' = g1 # gs1" "s' = s2" by auto
    from visit_le[OF v] Cons.IH[OF r] show ?case
      unfolding eq by (auto simp: unread_total_def)
  qed
  assume alive: "anyAlive st"
    and eq: "(fs', st') = weave_round hasher fs (st\<lparr>anyAlive := False\<rparr>)"
  from eq[symmetric]
  have "unread_total fs' \<le> unread_total fs \<and>
        (anyAlive st' \<longrightarrow> anyAlive (st\<lparr>anyAlive := False\<rparr>) \<or> unread_total fs' < unread_total fs)"
    by (rule round_le)
  with alive show "((hasher, fs', st'), (hasher, fs, st))
          \<in> measure (\<lambda>(hasher, fs, st). 2 * unread_total fs + (if anyAlive st then 1 else 0))"
    by auto
qed

text \<open>
  Opening the input files: \<open>open_file path\<close> is the content of the file when an
  \<^verbatim>\<open>ifstream\<close> on \<open>path\<close> opens, \<open>None\<close> when it does not. A file that does not open is
  reported and left out.
\<close>

fun open_files :: "(string \<Rightarrow> string option) \<Rightarrow> string list \<Rightarrow> ifstream list \<times> diag list" where
  "open_files open_file [] = ([], [])"
| "open_files open_file (path # paths) =
     (case open_files open_file paths of
        (files, warnings) \<Rightarrow>
          (case open_file path of
             None \<Rightarrow> (files, Warning_could_not_open path # warnings)
           | Some content \<Rightarrow>
               (\<lparr>unread = content, eofbit = False, failbit = False\<rparr> # files, warnings)))"

text \<open>
  \<^verbatim>\<open>weaveMergeDedup(filePaths, out)\<close>: the result is the content of the output stream
  (\<open>out\<close> is what it held before) and the diagnostics.
\<close>

definition weaveMergeDedup ::
  "(string \<Rightarrow> 'h) \<Rightarrow> (string \<Rightarrow> string option) \<Rightarrow> string list \<Rightarrow> string \<Rightarrow> string \<times> diag list" where
  "weaveMergeDedup hasher open_file filePaths out =
     (case open_files open_file filePaths of
        (files, warnings) \<Rightarrow>
          if files = [] then (out, warnings @ [Error_no_files_opened])
          else (sink (snd (weave_loop hasher files
                             \<lparr>written = {}, sink = out, anyAlive = True\<rparr>)), warnings))"

section \<open>Pattern expansion\<close>

text \<open>
  What the program sees of the file system and of \<^verbatim>\<open>std::filesystem\<close>: the two path
  decompositions it calls, the status of a path (\<open>None\<close> when the query raises
  \<^verbatim>\<open>filesystem_error\<close>; a missing file is the regular answer \<open>not_found\<close>), the entries a
  directory iteration delivers in its order together with whether the iteration
  raised afterwards, the content an input stream sees, and whether an output file can
  be created.
\<close>

datatype file_type = not_found | regular | directory | other_type

record dir_entry =
  entry_path :: string
  entry_type :: "file_type option"

record filesystem =
  parent_path_of :: "string \<Rightarrow> string"
  filename_of :: "string \<Rightarrow> string"
  status_of :: "string \<Rightarrow> file_type option"
  listing :: "string \<Rightarrow> dir_entry list \<times> bool"
  open_read :: "string \<Rightarrow> string option"
  can_create :: "string \<Rightarrow> bool"

datatype abort = Unhandled_filesystem_error

definition has_wildcard :: "string \<Rightarrow> bool" where
  "has_wildcard pattern = (CHR ''*'' \<in> set pattern \<or> CHR ''?'' \<in> set pattern)"

text \<open>
  The loop over the entries of a directory, inside the \<open>try\<close> block. It returns the
  extended result and whether a status query on an entry raised, which ends the loop
  and keeps what was appended so far.
\<close>

fun scan_entries ::
  "filesystem \<Rightarrow> string \<Rightarrow> dir_entry list \<Rightarrow> string list \<Rightarrow> string list \<times> bool" where
  "scan_entries fs filename [] result = (result, False)"
| "scan_entries fs filename (entry # entries) result =
     (case entry_type entry of
        None \<Rightarrow> (result, True)
      | Some ty \<Rightarrow>
          if ty = regular then
            (if wildcardMatch (filename_of fs (entry_path entry)) filename
             then scan_entries fs filename entries (result @ [entry_path entry])
             else scan_entries fs filename entries result)
          else scan_entries fs filename entries result)"

text \<open>
  The body of the loop of \<^verbatim>\<open>expandFilePaths\<close> for one pattern, on the result list and the
  diagnostics so far. The wildcard branch runs inside \<open>try\<close>, so a raised
  \<^verbatim>\<open>filesystem_error\<close> becomes a warning there; the literal branch has no handler, so a
  raised error leaves the function.
\<close>

definition expand_pattern ::
  "filesystem \<Rightarrow> string \<Rightarrow> string list \<times> diag list \<Rightarrow> abort + string list \<times> diag list" where
  "expand_pattern fs pattern acc =
     (case acc of
        (result, err) \<Rightarrow>
          if has_wildcard pattern then
            (let filename = filename_of fs pattern;
                 parentPath = (if parent_path_of fs pattern = [] then ''.''
                               else parent_path_of fs pattern)
             in case status_of fs parentPath of
                  None \<Rightarrow> Inr (result, err @ [Warning_error_processing_pattern pattern])
                | Some ty \<Rightarrow>
                    if ty \<noteq> not_found \<and> ty = directory then
                      (case listing fs parentPath of
                         (entries, iteration_raised) \<Rightarrow>
                           (case scan_entries fs filename entries result of
                              (result', entry_raised) \<Rightarrow>
                                if entry_raised \<or> iteration_raised
                                then Inr (result', err @ [Warning_error_processing_pattern pattern])
                                else Inr (result', err)))
                    else Inr (result, err @ [Warning_directory_not_found pattern]))
          else
            (case status_of fs pattern of
               None \<Rightarrow> Inl Unhandled_filesystem_error
             | Some ty \<Rightarrow>
                 if ty \<noteq> not_found \<and> ty = regular then Inr (result @ [pattern], err)
                 else Inr (result, err @ [Warning_not_a_regular_file pattern])))"

fun expand_loop ::
  "filesystem \<Rightarrow> string list \<Rightarrow> string list \<times> diag list \<Rightarrow> abort + string list \<times> diag list" where
  "expand_loop fs [] acc = Inr acc"
| "expand_loop fs (pattern # patterns) acc =
     (case expand_pattern fs pattern acc of
        Inl a \<Rightarrow> Inl a
      | Inr acc' \<Rightarrow> expand_loop fs patterns acc')"

definition expandFilePaths :: "filesystem \<Rightarrow> string list \<Rightarrow> abort + string list \<times> diag list" where
  "expandFilePaths fs patterns = expand_loop fs patterns ([], [])"

section \<open>The command line and the main program\<close>

text \<open>
  The argument loop of \<open>main\<close> over \<open>argv[1..]\<close>: an argument equal to \<open>-o\<close> or
  \<open>--output\<close> takes the next argument as the output file and skips it; without a next
  argument the program reports an error and returns 1; every other argument is
  appended to the patterns.
\<close>

fun parse_args :: "string list \<Rightarrow> string \<Rightarrow> string list \<Rightarrow> diag + string \<times> string list" where
  "parse_args [] outputFile filePatterns = Inr (outputFile, filePatterns)"
| "parse_args (arg # args) outputFile filePatterns =
     (if arg = ''-o'' \<or> arg = ''--output'' then
        (case args of
           [] \<Rightarrow> Inl Error_output_requires_filename
         | name # args' \<Rightarrow> parse_args args' name filePatterns)
      else parse_args args outputFile (filePatterns @ [arg]))"

text \<open>
  What a run leaves behind: the value returned by \<open>main\<close>, the diagnostics, and the
  output file with its content when one was created. The output file is taken to be
  none of the input files.
\<close>

record outcome =
  exit_code :: int
  stderr :: "diag list"
  output_file :: "(string \<times> string) option"

definition main :: "(string \<Rightarrow> 'h) \<Rightarrow> filesystem \<Rightarrow> string list \<Rightarrow> abort + outcome" where
  "main hasher fs argv =
     (if length argv < 2 then Inr \<lparr>exit_code = 1, stderr = [Usage], output_file = None\<rparr>
      else case parse_args (tl argv) ''merged.txt'' [] of
        Inl e \<Rightarrow> Inr \<lparr>exit_code = 1, stderr = [e], output_file = None\<rparr>
      | Inr (outputFile, filePatterns) \<Rightarrow>
          if filePatterns = [] then
            Inr \<lparr>exit_code = 1, stderr = [Error_no_input_files], output_file = None\<rparr>
          else case expandFilePaths fs filePatterns of
            Inl a \<Rightarrow> Inl a
          | Inr (filePaths, warnings) \<Rightarrow>
              if filePaths = [] then
                Inr \<lparr>exit_code = 1, stderr = warnings @ [Error_no_valid_input_files],
                     output_file = None\<rparr>
              else
                (let many = (if length filePaths > 100
                             then [Warning_many_files (length filePaths)] else [])
                 in if \<not> can_create fs outputFile then
                      Inr \<lparr>exit_code = 1,
                           stderr = warnings @ many @ [Error_could_not_open_output outputFile],
                           output_file = None\<rparr>
                    else case weaveMergeDedup hasher (open_read fs) filePaths [] of
                      (out, diags) \<Rightarrow>
                        Inr \<lparr>exit_code = 0, stderr = warnings @ many @ diags,
                             output_file = Some (outputFile, out)\<rparr>))"

text \<open>
  A small file system for concrete runs: the working directory holds one regular
  file \<open>a.txt\<close>, which exists but cannot be opened for reading (as a file without read
  permission, or one locked by another process); nothing else exists; any output file
  can be created. Paths are split at the last \<open>/\<close>.
\<close>

definition sample_fs :: filesystem where
  "sample_fs =
     \<lparr>parent_path_of = (\<lambda>p. rev (drop 1 (dropWhile (\<lambda>c. c \<noteq> CHR ''/'') (rev p)))),
      filename_of = (\<lambda>p. rev (takeWhile (\<lambda>c. c \<noteq> CHR ''/'') (rev p))),
      status_of = (\<lambda>p. if p = ''a.txt'' \<or> p = ''./a.txt'' then Some regular
                        else if p = ''.'' then Some directory else Some not_found),
      listing = (\<lambda>d. if d = ''.''
                      then ([\<lparr>entry_path = ''./a.txt'', entry_type = Some regular\<rparr>], False)
                      else ([], True)),
      open_read = (\<lambda>p. None),
      can_create = (\<lambda>p. True)\<rparr>"

text \<open>
  The same file system, except that the status query raises on a path of more than
  255 characters, as the operating system refuses a name that is too long; and a name
  of 300 characters.
\<close>

definition long_name :: string where
  "long_name = replicate 300 (CHR ''a'')"

definition long_name_fs :: filesystem where
  "long_name_fs =
     sample_fs\<lparr>status_of := (\<lambda>p. if 255 < length p then None else status_of sample_fs p)\<rparr>"

section \<open>Notions of the specification\<close>

text \<open>
  The lines of a file as successive reads deliver them: the pieces between
  delimiters, where a delimiter at the very end opens no further line.
\<close>

function lines_of :: "string \<Rightarrow> string list" where
  "lines_of cs =
     (if cs = [] then []
      else takeWhile (\<lambda>c. c \<noteq> newline) cs #
           lines_of (drop 1 (dropWhile (\<lambda>c. c \<noteq> newline) cs)))"
  by pat_completeness auto
termination
proof (relation "measure length")
  show "wf (measure (length :: string \<Rightarrow> nat))" by simp
next
  fix cs :: string
  assume "cs \<noteq> []"
  moreover have "length (dropWhile (\<lambda>c. c \<noteq> newline) cs) \<le> length cs"
    by (rule length_dropWhile_le)
  ultimately show "(drop 1 (dropWhile (\<lambda>c. c \<noteq> newline) cs), cs) \<in> measure length"
    by (cases cs) auto
qed

text \<open>A file, or the output, holding the given lines, each followed by one delimiter.\<close>

definition file_of_lines :: "string list \<Rightarrow> string" where
  "file_of_lines ls = concat (map (\<lambda>l. l @ [newline]) ls)"

text \<open>
  Keeping the first element of each hash value, given the hash values taken already.
  With the identity as \<open>hasher\<close> this keeps the first occurrence of each element.
\<close>

fun dedup :: "('a \<Rightarrow> 'h) \<Rightarrow> 'h set \<Rightarrow> 'a list \<Rightarrow> 'a list" where
  "dedup hasher seen [] = []"
| "dedup hasher seen (x # xs) =
     (if hasher x \<in> seen then dedup hasher seen xs
      else x # dedup hasher (insert (hasher x) seen) xs)"

definition first_occurrences :: "'a list \<Rightarrow> 'a list" where
  "first_occurrences xs = dedup (\<lambda>x. x) {} xs"

text \<open>
  The round-robin order of several line sequences: all first lines in the order of
  the files, then all second lines, and so on, where a sequence that has ended is
  passed over.
\<close>

definition round_robin :: "'a list list \<Rightarrow> 'a list" where
  "round_robin xss = concat (transpose xss)"

text \<open>The first elements of the sequences that have one: what one round reads.\<close>

definition heads :: "'a list list \<Rightarrow> 'a list" where
  "heads xss = map hd (filter (\<lambda>xs. xs \<noteq> []) xss)"

text \<open>The lines a stream still delivers, and a stream at the start of a content.\<close>

definition pending :: "ifstream \<Rightarrow> string list" where
  "pending f = (if good f then lines_of (unread f) else [])"

definition fresh :: "string \<Rightarrow> ifstream" where
  "fresh content = \<lparr>unread = content, eofbit = False, failbit = False\<rparr>"

text \<open>The contents of the files that open, in the order of the paths, and the warnings
  for those that do not.\<close>

fun opened_contents :: "(string \<Rightarrow> string option) \<Rightarrow> string list \<Rightarrow> string list" where
  "opened_contents open_file [] = []"
| "opened_contents open_file (path # paths) =
     (case open_file path of
        None \<Rightarrow> opened_contents open_file paths
      | Some content \<Rightarrow> content # opened_contents open_file paths)"

fun open_warnings :: "(string \<Rightarrow> string option) \<Rightarrow> string list \<Rightarrow> diag list" where
  "open_warnings open_file [] = []"
| "open_warnings open_file (path # paths) =
     (case open_file path of
        None \<Rightarrow> Warning_could_not_open path # open_warnings open_file paths
      | Some content \<Rightarrow> open_warnings open_file paths)"

text \<open>
  The merge as a function of the contents of the files that opened: the output is
  the lines of the round-robin order whose hash was not seen before.
\<close>

definition merge_lines :: "(string \<Rightarrow> 'h) \<Rightarrow> string list \<Rightarrow> string list" where
  "merge_lines hasher contents = dedup hasher {} (round_robin (map lines_of contents))"

text \<open>The distinct lines of several files.\<close>

definition unique_lines :: "string list \<Rightarrow> string set" where
  "unique_lines contents = set (concat (map lines_of contents))"

text \<open>
  The hash function of one standard library, for concrete runs: the Microsoft
  implementation of \<^verbatim>\<open>std::hash<std::string>\<close> is FNV-1a over the bytes, on 32 bits in
  a 32-bit build and on 64 bits in a 64-bit build.
\<close>

definition fnv1a_32 :: "string \<Rightarrow> 32 word" where
  "fnv1a_32 s = fold (\<lambda>c h. (h XOR of_nat (of_char c)) * 16777619) s 2166136261"

definition fnv1a_64 :: "string \<Rightarrow> 64 word" where
  "fnv1a_64 s = fold (\<lambda>c h. (h XOR of_nat (of_char c)) * 1099511628211) s 14695981039346656037"

section \<open>Properties of the wildcard matcher\<close>

declare wildcardMatch_loop.simps [simp del]
declare skip_stars.simps [simp del]

lemma glob_match_Nil_right: "glob_match ps [] \<longleftrightarrow> (\<forall>c\<in>set ps. c = CHR ''*'')"
  by (induction ps) auto

lemma glob_match_Nil_left: "glob_match [] cs \<longleftrightarrow> cs = []"
  by (cases cs) auto

lemma glob_match_star: "glob_match (CHR ''*'' # ps) cs \<longleftrightarrow> (\<exists>k. glob_match ps (drop k cs))"
proof (induction cs)
  case Nil
  show ?case by simp
next
  case (Cons c cs)
  have "(\<exists>k. glob_match ps (drop k (c # cs))) \<longleftrightarrow>
        glob_match ps (c # cs) \<or> (\<exists>k. glob_match ps (drop k cs))" (is "?L \<longleftrightarrow> ?R")
  proof
    assume ?L
    then obtain k where k: "glob_match ps (drop k (c # cs))" ..
    show ?R using k by (cases k) auto
  next
    assume ?R
    then show ?L
    proof
      assume "glob_match ps (c # cs)"
      then have "glob_match ps (drop 0 (c # cs))" by simp
      then show ?L ..
    next
      assume "\<exists>k. glob_match ps (drop k cs)"
      then obtain k where "glob_match ps (drop k cs)" ..
      then have "glob_match ps (drop (Suc k) (c # cs))" by simp
      then show ?L ..
    qed
  qed
  with Cons show ?case by simp
qed

lemma glob_match_step:
  assumes "p = CHR ''?'' \<or> p = c" and "glob_match ps cs"
  shows "glob_match (p # ps) (c # cs)"
proof (cases "p = CHR ''*''")
  case True
  from assms(2) have "glob_match ps (drop 0 cs)" by simp
  then have "glob_match (CHR ''*'' # ps) cs" unfolding glob_match_star ..
  with True show ?thesis by simp
next
  case False
  with assms show ?thesis by simp
qed

lemma glob_match_literal_prefix:
  "CHR ''*'' \<notin> set qs \<Longrightarrow> glob_match (qs @ rs) cs \<Longrightarrow>
     length qs \<le> length cs \<and> glob_match rs (drop (length qs) cs)"
proof (induction qs arbitrary: cs)
  case Nil
  then show ?case by simp
next
  case (Cons q qs)
  then show ?case by (cases cs) auto
qed

lemma skip_stars_end:
  "skip_stars pattern p = length pattern \<longleftrightarrow>
     p \<le> length pattern \<and> (\<forall>c\<in>set (drop p pattern). c = CHR ''*'')"
proof (induction pattern p rule: skip_stars.induct)
  case (1 pattern p)
  show ?case
  proof (cases "p < length pattern")
    case True
    then have d: "drop p pattern = pattern ! p # drop (p + 1) pattern"
      using Cons_nth_drop_Suc[of p pattern] by simp
    show ?thesis
    proof (cases "pattern ! p = CHR ''*''")
      case star: True
      with True "1.IH" have "skip_stars pattern (p + 1) = length pattern \<longleftrightarrow>
          p + 1 \<le> length pattern \<and> (\<forall>c\<in>set (drop (p + 1) pattern). c = CHR ''*'')"
        by simp
      with True star d show ?thesis
        by (subst skip_stars.simps) auto
    next
      case False
      with True d show ?thesis
        by (subst skip_stars.simps) auto
    qed
  next
    case False
    then show ?thesis
      by (subst skip_stars.simps) auto
  qed
qed

lemma wm_cur_exit:
  "\<not> t < length text \<Longrightarrow> p \<le> length pattern \<Longrightarrow>
     wm_cur text pattern t p \<longleftrightarrow> skip_stars pattern p = length pattern"
  by (simp add: wm_cur_def glob_match_Nil_right skip_stars_end)

lemma wm_cur_exit_sound:
  "\<not> t < length text \<Longrightarrow> skip_stars pattern p = length pattern \<Longrightarrow> wm_cur text pattern t p"
  by (simp add: wm_cur_def glob_match_Nil_right skip_stars_end)

lemma wm_cur_unfold:
  "t < length text \<Longrightarrow> p < length pattern \<Longrightarrow>
     wm_cur text pattern t p =
       glob_match (pattern ! p # drop (p + 1) pattern) (text ! t # drop (t + 1) text)"
  using Cons_nth_drop_Suc[of p pattern] Cons_nth_drop_Suc[of t "text"] by (simp add: wm_cur_def)

lemma wm_cur_star:
  assumes "p < length pattern" "pattern ! p = CHR ''*''"
  shows "wm_cur text pattern t p \<longleftrightarrow>
           wm_cur text pattern t (p + 1) \<or> wm_alt text pattern (Some p) t"
proof -
  have d: "drop p pattern = CHR ''*'' # drop (p + 1) pattern"
    using assms Cons_nth_drop_Suc[of p pattern] by simp
  have "wm_cur text pattern t p \<longleftrightarrow> (\<exists>k. glob_match (drop (p + 1) pattern) (drop (k + t) text))"
    by (simp add: wm_cur_def d glob_match_star)
  also have "\<dots> \<longleftrightarrow> (\<exists>m'\<ge>t. glob_match (drop (p + 1) pattern) (drop m' text))"
  proof
    assume "\<exists>k. glob_match (drop (p + 1) pattern) (drop (k + t) text)"
    then obtain k where "glob_match (drop (p + 1) pattern) (drop (k + t) text)" ..
    then show "\<exists>m'\<ge>t. glob_match (drop (p + 1) pattern) (drop m' text)"
      by (intro exI[of _ "k + t"]) simp
  next
    assume "\<exists>m'\<ge>t. glob_match (drop (p + 1) pattern) (drop m' text)"
    then obtain m' where "t \<le> m'" "glob_match (drop (p + 1) pattern) (drop m' text)" by blast
    then show "\<exists>k. glob_match (drop (p + 1) pattern) (drop (k + t) text)"
      by (intro exI[of _ "m' - t"]) simp
  qed
  also have "\<dots> \<longleftrightarrow> wm_cur text pattern t (p + 1) \<or> wm_alt text pattern (Some p) t"
    unfolding wm_cur_def wm_alt_def by (auto simp: le_less)
  finally show ?thesis .
qed

lemma wm_alt_step:
  "wm_alt text pattern (Some s) m \<longleftrightarrow>
     wm_cur text pattern (m + 1) (s + 1) \<or> wm_alt text pattern (Some s) (m + 1)"
proof -
  have "(\<exists>m'>m. glob_match (drop (s + 1) pattern) (drop m' text)) \<longleftrightarrow>
        glob_match (drop (s + 1) pattern) (drop (m + 1) text) \<or>
        (\<exists>m'>m + 1. glob_match (drop (s + 1) pattern) (drop m' text))" (is "?L \<longleftrightarrow> ?A \<or> ?B")
  proof
    assume ?L
    then obtain m' where m': "m < m'" "glob_match (drop (s + 1) pattern) (drop m' text)" by blast
    show "?A \<or> ?B"
    proof (cases "m' = m + 1")
      case True
      with m' show ?thesis by simp
    next
      case False
      with m' have "m + 1 < m'" by simp
      with m' show ?thesis by blast
    qed
  next
    assume "?A \<or> ?B"
    then show ?L
    proof
      assume ?A
      then show ?L by (intro exI[of _ "m + 1"]) simp
    next
      assume ?B
      then obtain m' where "m + 1 < m'" "glob_match (drop (s + 1) pattern) (drop m' text)" by blast
      then show ?L by (intro exI[of _ m']) simp
    qed
  qed
  then show ?thesis by (simp add: wm_cur_def wm_alt_def)
qed


lemma loop_exit:
  "\<not> t < length tx \<Longrightarrow>
     wildcardMatch_loop tx pat t p star m = (skip_stars pat p = length pat)"
  by (subst wildcardMatch_loop.simps) simp

lemma loop_advance:
  "t < length tx \<Longrightarrow> p < length pat \<and> (pat ! p = CHR ''?'' \<or> pat ! p = tx ! t) \<Longrightarrow>
     wildcardMatch_loop tx pat t p star m = wildcardMatch_loop tx pat (t + 1) (p + 1) star m"
  by (subst wildcardMatch_loop.simps) simp

lemma loop_star:
  "t < length tx \<Longrightarrow> \<not> (p < length pat \<and> (pat ! p = CHR ''?'' \<or> pat ! p = tx ! t)) \<Longrightarrow>
   p < length pat \<and> pat ! p = CHR ''*'' \<Longrightarrow>
     wildcardMatch_loop tx pat t p star m = wildcardMatch_loop tx pat t (p + 1) (Some p) t"
  by (subst wildcardMatch_loop.simps) simp

lemma loop_backtrack:
  "t < length tx \<Longrightarrow> \<not> (p < length pat \<and> (pat ! p = CHR ''?'' \<or> pat ! p = tx ! t)) \<Longrightarrow>
   \<not> (p < length pat \<and> pat ! p = CHR ''*'') \<Longrightarrow>
     wildcardMatch_loop tx pat t p (Some s) m =
       wildcardMatch_loop tx pat (m + 1) (s + 1) (Some s) (m + 1)"
  by (subst wildcardMatch_loop.simps) auto

lemma loop_fail:
  "t < length tx \<Longrightarrow> \<not> (p < length pat \<and> (pat ! p = CHR ''?'' \<or> pat ! p = tx ! t)) \<Longrightarrow>
   \<not> (p < length pat \<and> pat ! p = CHR ''*'') \<Longrightarrow>
     wildcardMatch_loop tx pat t p None m = False"
  by (subst wildcardMatch_loop.simps) auto

lemma wm_cur_mismatch:
  assumes "t < length tx"
    and "\<not> (p < length pat \<and> (pat ! p = CHR ''?'' \<or> pat ! p = tx ! t))"
    and "\<not> (p < length pat \<and> pat ! p = CHR ''*'')"
  shows "\<not> wm_cur tx pat t p"
proof (cases "p < length pat")
  case True
  with assms show ?thesis by (simp add: wm_cur_unfold)
next
  case False
  then have "drop p pat = []" by simp
  moreover from assms(1) have "drop t tx \<noteq> []" by simp
  ultimately show ?thesis by (simp add: wm_cur_def glob_match_Nil_left)
qed

lemma wildcardMatch_loop_sound:
  "wildcardMatch_loop tx pat t p star m \<Longrightarrow> wm_cur tx pat t p \<or> wm_alt tx pat star m"
proof (induction tx pat t p star m rule: wildcardMatch_loop.induct)
  case (1 tx pat t p star m)
  note run = "1.prems"
  show ?case
  proof (cases "t < length tx")
    case False
    with run have "skip_stars pat p = length pat" by (simp add: loop_exit)
    with False show ?thesis by (simp add: wm_cur_exit_sound)
  next
    case inb: True
    show ?thesis
    proof (cases "p < length pat \<and> (pat ! p = CHR ''?'' \<or> pat ! p = tx ! t)")
      case c1: True
      with inb run have "wildcardMatch_loop tx pat (t + 1) (p + 1) star m"
        by (simp add: loop_advance)
      with "1.IH"(1) inb c1 have "wm_cur tx pat (t + 1) (p + 1) \<or> wm_alt tx pat star m"
        by blast
      moreover have "wm_cur tx pat t p" if "wm_cur tx pat (t + 1) (p + 1)"
      proof -
        from that have "glob_match (drop (p + 1) pat) (drop (t + 1) tx)"
          by (simp add: wm_cur_def)
        with c1 have "glob_match (pat ! p # drop (p + 1) pat) (tx ! t # drop (t + 1) tx)"
          by (intro glob_match_step) auto
        with inb c1 show ?thesis by (simp add: wm_cur_unfold)
      qed
      ultimately show ?thesis by blast
    next
      case n1: False
      show ?thesis
      proof (cases "p < length pat \<and> pat ! p = CHR ''*''")
        case c2: True
        with inb n1 run have "wildcardMatch_loop tx pat t (p + 1) (Some p) t"
          by (simp add: loop_star)
        with "1.IH"(2) inb n1 c2
        have "wm_cur tx pat t (p + 1) \<or> wm_alt tx pat (Some p) t" by blast
        with c2 show ?thesis by (simp add: wm_cur_star)
      next
        case n2: False
        show ?thesis
        proof (cases star)
          case None
          with inb n1 n2 run show ?thesis by (simp add: loop_fail)
        next
          case (Some s)
          with inb n1 n2 run
          have "wildcardMatch_loop tx pat (m + 1) (s + 1) star (m + 1)"
            by (simp add: loop_backtrack)
          with "1.IH"(3) inb n1 n2 Some
          have "wm_cur tx pat (m + 1) (s + 1) \<or> wm_alt tx pat star (m + 1)" by blast
          with Some show ?thesis using wm_alt_step[of tx pat s m] by simp
        qed
      qed
    qed
  qed
qed

lemma wm_alt_through_literals:
  assumes inv: "m \<le> t" "p = s + 1 + (t - m)" "p \<le> length pat"
    and lit: "CHR ''*'' \<notin> set (take (t - m) (drop (s + 1) pat))"
    and alt: "wm_alt tx pat (Some s) m"
  shows "\<exists>k>t. glob_match (drop p pat) (drop k tx)"
proof -
  from alt obtain m' where m': "m < m'" "glob_match (drop (s + 1) pat) (drop m' tx)"
    by (auto simp: wm_alt_def)
  let ?qs = "take (t - m) (drop (s + 1) pat)"
  have len: "length ?qs = t - m" using inv by simp
  have split: "drop (s + 1) pat = ?qs @ drop p pat"
    using inv by (metis add.commute append_take_drop_id drop_drop)
  from m'(2) have "glob_match (?qs @ drop p pat) (drop m' tx)"
    using split by simp
  from glob_match_literal_prefix[OF lit this] len
  have "glob_match (drop p pat) (drop (t - m + m') tx)" by simp
  moreover have "t < t - m + m'" using inv m'(1) by simp
  ultimately show ?thesis by blast
qed

lemma wildcardMatch_loop_complete:
  "CHR ''*'' \<notin> set tx \<Longrightarrow> wm_inv pat t p star m \<Longrightarrow>
   wm_cur tx pat t p \<or> wm_alt tx pat star m \<Longrightarrow> wildcardMatch_loop tx pat t p star m"
proof (induction tx pat t p star m rule: wildcardMatch_loop.induct)
  case (1 tx pat t p star m)
  note nostar = "1.prems"(1) and inv = "1.prems"(2) and spec = "1.prems"(3)
  from inv have ple: "p \<le> length pat" by (simp add: wm_inv_def)
  show ?case
  proof (cases "t < length tx")
    case False
    have "wm_cur tx pat t p"
    proof (cases star)
      case None
      with spec show ?thesis by (simp add: wm_alt_def)
    next
      case (Some s)
      show ?thesis
      proof (rule disjE[OF spec])
        assume "wm_alt tx pat star m"
        with inv Some have "\<exists>k>t. glob_match (drop p pat) (drop k tx)"
          by (intro wm_alt_through_literals[where m = m and s = s]) (auto simp: wm_inv_def)
        then obtain k where "t < k" "glob_match (drop p pat) (drop k tx)" by blast
        with False show ?thesis by (simp add: wm_cur_def)
      qed
    qed
    with False ple show ?thesis by (simp add: loop_exit wm_cur_exit)
  next
    case inb: True
    show ?thesis
    proof (cases "p < length pat \<and> (pat ! p = CHR ''?'' \<or> pat ! p = tx ! t)")
      case c1: True
      from inb nostar have "tx ! t \<noteq> CHR ''*''" by (metis nth_mem)
      with c1 have ns: "pat ! p \<noteq> CHR ''*''" by auto
      have inv': "wm_inv pat (t + 1) (p + 1) star m"
      proof (cases star)
        case None
        with c1 show ?thesis by (simp add: wm_inv_def)
      next
        case (Some s)
        with inv have i: "m \<le> t" "p = s + 1 + (t - m)"
          "CHR ''*'' \<notin> set (take (t - m) (drop (s + 1) pat))"
          by (auto simp: wm_inv_def)
        have "t + 1 - m = Suc (t - m)" using i(1) by simp
        moreover have "t - m < length (drop (s + 1) pat)" using c1 i by (simp; arith)
        moreover have "s + 1 \<le> length pat" using c1 i by (simp; arith)
        then have "drop (s + 1) pat ! (t - m) = pat ! (s + 1 + (t - m))" by (rule nth_drop)
        then have "drop (s + 1) pat ! (t - m) = pat ! p" using i(2) by simp
        ultimately have "take (t + 1 - m) (drop (s + 1) pat) =
            take (t - m) (drop (s + 1) pat) @ [pat ! p]"
          by (simp add: take_Suc_conv_app_nth)
        with i ns c1 Some show ?thesis by (simp add: wm_inv_def)
      qed
      have "wm_cur tx pat t p \<longleftrightarrow> wm_cur tx pat (t + 1) (p + 1)"
        using inb c1 ns by (simp add: wm_cur_unfold) (simp add: wm_cur_def)
      with spec have "wm_cur tx pat (t + 1) (p + 1) \<or> wm_alt tx pat star m" by simp
      with "1.IH"(1) inb c1 nostar inv'
      have "wildcardMatch_loop tx pat (t + 1) (p + 1) star m" by blast
      with inb c1 show ?thesis by (simp add: loop_advance)
    next
      case n1: False
      show ?thesis
      proof (cases "p < length pat \<and> pat ! p = CHR ''*''")
        case c2: True
        have inv': "wm_inv pat t (p + 1) (Some p) t"
          using c2 by (simp add: wm_inv_def)
        have "wm_cur tx pat t p"
        proof (rule disjE[OF spec])
          assume alt: "wm_alt tx pat star m"
          then obtain s where Some: "star = Some s" by (cases star) (auto simp: wm_alt_def)
          with inv alt have "\<exists>k>t. glob_match (drop p pat) (drop k tx)"
            by (intro wm_alt_through_literals[where m = m and s = s]) (auto simp: wm_inv_def)
          then obtain k where k: "t < k" "glob_match (drop p pat) (drop k tx)" by blast
          have d: "drop p pat = CHR ''*'' # drop (p + 1) pat"
            using c2 Cons_nth_drop_Suc[of p pat] by simp
          from k(2) obtain j where "glob_match (drop (p + 1) pat) (drop j (drop k tx))"
            unfolding d glob_match_star ..
          then have "glob_match (drop (p + 1) pat) (drop (j + k - t) (drop t tx))"
            using k(1) by simp
          then show ?thesis unfolding wm_cur_def d glob_match_star ..
        qed
        with c2 have "wm_cur tx pat t (p + 1) \<or> wm_alt tx pat (Some p) t"
          by (simp add: wm_cur_star)
        with "1.IH"(2) inb n1 c2 nostar inv'
        have "wildcardMatch_loop tx pat t (p + 1) (Some p) t" by blast
        with inb n1 c2 show ?thesis by (simp add: loop_star)
      next
        case n2: False
        from inb n1 n2 have nocur: "\<not> wm_cur tx pat t p" by (rule wm_cur_mismatch)
        with spec have alt: "wm_alt tx pat star m" by simp
        then obtain s where Some: "star = Some s" by (cases star) (auto simp: wm_alt_def)
        have inv': "wm_inv pat (m + 1) (s + 1) star (m + 1)"
          using inv Some by (auto simp: wm_inv_def)
        from alt Some have "wm_cur tx pat (m + 1) (s + 1) \<or> wm_alt tx pat star (m + 1)"
          using wm_alt_step[of tx pat s m] by simp
        with "1.IH"(3) inb n1 n2 Some nostar inv'
        have "wildcardMatch_loop tx pat (m + 1) (s + 1) star (m + 1)" by blast
        with inb n1 n2 Some show ?thesis by (simp add: loop_backtrack)
      qed
    qed
  qed
qed


lemma wildcardMatch_sound: "wildcardMatch tx pat \<Longrightarrow> glob_match pat tx"
  using wildcardMatch_loop_sound[of tx pat 0 0 None 0]
  by (simp add: wildcardMatch_def wm_cur_def wm_alt_def)

lemma wildcardMatch_complete:
  "CHR ''*'' \<notin> set tx \<Longrightarrow> glob_match pat tx \<Longrightarrow> wildcardMatch tx pat"
  using wildcardMatch_loop_complete[of tx pat 0 0 None 0]
  by (simp add: wildcardMatch_def wm_cur_def wm_inv_def)

lemma wildcardMatch_empty_text: "wildcardMatch [] pat \<longleftrightarrow> (\<forall>c\<in>set pat. c = CHR ''*'')"
  by (simp add: wildcardMatch_def loop_exit skip_stars_end)

text \<open>
  The restriction of the converse to candidates without a \<open>*\<close> is needed: the scan
  compares characters before it looks for a star, so a \<open>*\<close> in the pattern facing a
  \<open>*\<close> in the candidate is consumed as an equal character and is not recorded.
\<close>

lemma wildcardMatch_star_in_text:
  "\<not> wildcardMatch ''*a'' ''*'' \<and> glob_match ''*'' ''*a''"
  by (simp add: wildcardMatch_def wildcardMatch_loop.simps)

text \<open>
  C6. The matcher decides a match of the whole candidate against the whole pattern:
  \<open>*.txt\<close> matches \<open>a.txt\<close> and not \<open>a.txt.bak\<close>; \<open>file?.txt\<close> matches \<open>file1.txt\<close> and
  neither \<open>file12.txt\<close> nor \<open>file.txt\<close>. Whenever the matcher answers yes, the whole
  pattern accounts for the whole candidate; once the candidate is used up, exactly a
  rest of the pattern made of \<open>*\<close> characters is accepted; and on a candidate without
  a \<open>*\<close> the matcher answers yes exactly when the pattern matches.
\<close>

theorem wildcardMatch_full_match:
  "wildcardMatch ''a.txt'' ''*.txt'' \<and>
   \<not> wildcardMatch ''a.txt.bak'' ''*.txt'' \<and>
   wildcardMatch ''file1.txt'' ''file?.txt'' \<and>
   \<not> wildcardMatch ''file12.txt'' ''file?.txt'' \<and>
   \<not> wildcardMatch ''file.txt'' ''file?.txt'' \<and>
   (\<forall>candidate pattern. wildcardMatch candidate pattern \<longrightarrow> glob_match pattern candidate) \<and>
   (\<forall>pattern. wildcardMatch [] pattern \<longleftrightarrow> (\<forall>c\<in>set pattern. c = CHR ''*'')) \<and>
   (\<forall>candidate pattern. CHR ''*'' \<notin> set candidate \<longrightarrow>
      (wildcardMatch candidate pattern \<longleftrightarrow> glob_match pattern candidate))"
proof -
  have "wildcardMatch ''a.txt'' ''*.txt''"
    by (simp add: wildcardMatch_def wildcardMatch_loop.simps skip_stars.simps)
  moreover have "\<not> wildcardMatch ''a.txt.bak'' ''*.txt''"
    by (simp add: wildcardMatch_def wildcardMatch_loop.simps skip_stars.simps)
  moreover have "wildcardMatch ''file1.txt'' ''file?.txt''"
    by (simp add: wildcardMatch_def wildcardMatch_loop.simps skip_stars.simps)
  moreover have "\<not> wildcardMatch ''file12.txt'' ''file?.txt''"
    by (simp add: wildcardMatch_def wildcardMatch_loop.simps skip_stars.simps)
  moreover have "\<not> wildcardMatch ''file.txt'' ''file?.txt''"
    by (simp add: wildcardMatch_def wildcardMatch_loop.simps skip_stars.simps)
  moreover have "\<forall>candidate pattern. wildcardMatch candidate pattern \<longrightarrow> glob_match pattern candidate"
    by (blast intro: wildcardMatch_sound)
  moreover have "\<forall>pattern. wildcardMatch [] pattern \<longleftrightarrow> (\<forall>c\<in>set pattern. c = CHR ''*'')"
    by (simp add: wildcardMatch_empty_text)
  moreover have "\<forall>candidate pattern. CHR ''*'' \<notin> set candidate \<longrightarrow>
      (wildcardMatch candidate pattern \<longleftrightarrow> glob_match pattern candidate)"
    by (blast intro: wildcardMatch_sound wildcardMatch_complete)
  ultimately show ?thesis by (intro conjI)
qed

theorem wildcardMatch_full_match_witness:
  "glob_match ''*.txt'' ''a.txt'' \<and> wildcardMatch [] ''**'' \<and>
   CHR ''*'' \<notin> set ''notes.txt'' \<and> wildcardMatch ''notes.txt'' ''n*.t?t''"
proof -
  note full = wildcardMatch_full_match
  from full have ex: "wildcardMatch ''a.txt'' ''*.txt''" by (elim conjE)
  from full have snd: "\<forall>candidate pattern. wildcardMatch candidate pattern \<longrightarrow> glob_match pattern candidate"
    by (elim conjE)
  from full have emp: "\<forall>pattern. wildcardMatch [] pattern \<longleftrightarrow> (\<forall>c\<in>set pattern. c = CHR ''*'')"
    by (elim conjE)
  from full have cmp: "\<forall>candidate pattern. CHR ''*'' \<notin> set candidate \<longrightarrow>
      (wildcardMatch candidate pattern \<longleftrightarrow> glob_match pattern candidate)"
    by (elim conjE)
  have a: "glob_match ''*.txt'' ''a.txt''"
    using snd[rule_format, OF ex] .
  have b: "wildcardMatch [] ''**''"
    using emp[rule_format, of "''**''"] by simp
  have c: "CHR ''*'' \<notin> set ''notes.txt''" by simp
  have "glob_match ''n*.t?t'' ''notes.txt''" by simp
  with cmp[rule_format, OF c, of "''n*.t?t''"] have d: "wildcardMatch ''notes.txt'' ''n*.t?t''"
    by (simp only:)
  from a b c d show ?thesis by (intro conjI)
qed

section \<open>Properties of the merge\<close>

subsection \<open>Lines of a file\<close>

declare lines_of.simps [simp del]
declare weave_loop.simps [simp del]

lemma lines_of_Nil [simp]: "lines_of [] = []"
  by (subst lines_of.simps) simp

lemma lines_of_eq_Nil [simp]: "lines_of cs = [] \<longleftrightarrow> cs = []"
  by (subst lines_of.simps) simp

lemma lines_of_nonempty:
  "cs \<noteq> [] \<Longrightarrow>
     lines_of cs = takeWhile (\<lambda>c. c \<noteq> newline) cs #
                   lines_of (drop 1 (dropWhile (\<lambda>c. c \<noteq> newline) cs))"
  by (subst lines_of.simps) simp

lemma lines_of_line_Cons:
  "newline \<notin> set l \<Longrightarrow> lines_of (l @ newline # cs) = l # lines_of cs"
proof -
  assume nl: "newline \<notin> set l"
  then have "takeWhile (\<lambda>c. c \<noteq> newline) (l @ newline # cs) = l"
    by (auto simp: takeWhile_tail)
  moreover from nl have "dropWhile (\<lambda>c. c \<noteq> newline) (l @ newline # cs) = newline # cs"
    by (auto simp: dropWhile_append3)
  ultimately show ?thesis by (simp add: lines_of_nonempty)
qed

lemma lines_of_file_of_lines:
  "\<forall>l\<in>set ls. newline \<notin> set l \<Longrightarrow> lines_of (file_of_lines ls) = ls"
proof (induction ls)
  case Nil
  show ?case by (simp add: file_of_lines_def)
next
  case (Cons l ls)
  then have "lines_of (l @ newline # file_of_lines ls) = l # ls"
    by (simp add: lines_of_line_Cons)
  then show ?case by (simp add: file_of_lines_def)
qed

lemma file_of_lines_append:
  "file_of_lines (xs @ ys) = file_of_lines xs @ file_of_lines ys"
  by (simp add: file_of_lines_def)

lemma lines_of_unterminated:
  "l \<noteq> [] \<Longrightarrow> newline \<notin> set l \<Longrightarrow> lines_of l = [l]"
proof -
  assume ne: "l \<noteq> []" and nl: "newline \<notin> set l"
  from nl have tw: "takeWhile (\<lambda>c. c \<noteq> newline) l = l"
    by (auto simp: takeWhile_eq_all_conv)
  from nl have dw: "dropWhile (\<lambda>c. c \<noteq> newline) l = []"
    by (auto simp: dropWhile_eq_Nil_conv)
  have "lines_of l = takeWhile (\<lambda>c. c \<noteq> newline) l #
                        lines_of (drop 1 (dropWhile (\<lambda>c. c \<noteq> newline) l))"
    using ne by (rule lines_of_nonempty)
  also have "\<dots> = [l]" unfolding tw dw by simp
  finally show ?thesis .
qed

lemma lines_of_append_line:
  assumes "body = [] \<or> last body = newline"
  shows "lines_of (body @ cs) = lines_of body @ lines_of cs"
  using assms
proof (induction body rule: lines_of.induct)
  case (1 body)
  show ?case
  proof (cases "body = []")
    case True
    then show ?thesis by simp
  next
    case False
    with "1.prems" have lst: "last body = newline" by simp
    with False have mem: "newline \<in> set body" by (metis last_in_set)
    let ?l = "takeWhile (\<lambda>c. c \<noteq> newline) body"
    let ?r = "drop 1 (dropWhile (\<lambda>c. c \<noteq> newline) body)"
    from mem have dw: "dropWhile (\<lambda>c. c \<noteq> newline) body = newline # ?r"
      by (metis (mono_tags, lifting) One_nat_def drop0 drop_Suc_Cons dropWhile_eq_Nil_conv
            hd_dropWhile list.collapse list.sel(3) tl_drop)
    have body: "body = ?l @ newline # ?r"
      using dw by (metis takeWhile_dropWhile_id)
    have nl: "newline \<notin> set ?l" by (auto dest: set_takeWhileD)
    have r: "?r = [] \<or> last ?r = newline"
      using lst body by (metis last_ConsR last_appendR list.distinct(1))
    from "1.IH"[OF False r] have "lines_of (?r @ cs) = lines_of ?r @ lines_of cs" .
    moreover have "lines_of (body @ cs) = ?l # lines_of (?r @ cs)"
      using lines_of_line_Cons[OF nl, of "?r @ cs"] body by (metis append.assoc append_Cons)
    moreover have "lines_of body = ?l # lines_of ?r"
      using False by (rule lines_of_nonempty)
    ultimately show ?thesis by simp
  qed
qed


subsection \<open>Reading a line\<close>

lemma extract_line_eq:
  "extract_line cs acc =
     (acc @ takeWhile (\<lambda>c. c \<noteq> newline) cs,
      drop 1 (dropWhile (\<lambda>c. c \<noteq> newline) cs),
      newline \<notin> set cs)"
  by (induction cs arbitrary: acc) auto

lemma getline_good:
  "good f \<Longrightarrow>
     getline f =
       (unread f \<noteq> [], takeWhile (\<lambda>c. c \<noteq> newline) (unread f),
        \<lparr>unread = drop 1 (dropWhile (\<lambda>c. c \<noteq> newline) (unread f)),
         eofbit = (newline \<notin> set (unread f)), failbit = (unread f = [])\<rparr>)"
  by (simp add: getline_def extract_line_eq)

lemma visit_dead: "pending f = [] \<Longrightarrow> visit hasher f st = (f', st') \<Longrightarrow> st' = st \<and> pending f' = []"
  by (auto simp: visit_def pending_def getline_good good_def split: if_splits)

lemma visit_alive:
  assumes "pending f = l # ls" and "visit hasher f st = (f', st')"
  shows "st' = emit hasher l (st\<lparr>anyAlive := True\<rparr>) \<and> pending f' = ls"
proof -
  from assms(1) have g: "good f" and ne: "unread f \<noteq> []"
    by (auto simp: pending_def split: if_splits)
  let ?r = "drop 1 (dropWhile (\<lambda>c. c \<noteq> newline) (unread f))"
  from assms(1) g ne have l: "l = takeWhile (\<lambda>c. c \<noteq> newline) (unread f)"
    and ls: "ls = lines_of ?r"
    by (simp_all add: pending_def lines_of_nonempty)
  from assms(2) g ne have f': "f' = \<lparr>unread = ?r, eofbit = (newline \<notin> set (unread f)), failbit = False\<rparr>"
    and st': "st' = emit hasher l (st\<lparr>anyAlive := True\<rparr>)"
    by (simp_all add: visit_def getline_good l)
  have "pending f' = ls"
  proof (cases "newline \<in> set (unread f)")
    case True
    with f' ls show ?thesis by (simp add: pending_def good_def)
  next
    case False
    then have "dropWhile (\<lambda>c. c \<noteq> newline) (unread f) = []"
      by (auto simp: dropWhile_eq_Nil_conv)
    with f' ls False show ?thesis by (simp add: pending_def good_def)
  qed
  with st' show ?thesis by simp
qed

subsection \<open>The effect of emitting lines\<close>

lemma dedup_append:
  "dedup h S (xs @ ys) = dedup h S xs @ dedup h (S \<union> h ` set xs) ys"
  by (induction xs arbitrary: S) (auto simp: insert_absorb)

lemma emit_written: "written (emit hasher l st) = insert (hasher l) (written st)"
  by (auto simp: emit_def Let_def)

lemma emit_sink: "sink (emit hasher l st) = sink st @ file_of_lines (dedup hasher (written st) [l])"
  by (simp add: emit_def Let_def file_of_lines_def)

lemma emit_anyAlive: "anyAlive (emit hasher l st) = anyAlive st"
  by (simp add: emit_def Let_def)

text \<open>What one round does, in terms of the first pending line of every stream.\<close>

lemma heads_simps [simp]:
  "heads [] = []" "heads ([] # xss) = heads xss" "heads ((x # xs) # xss) = x # heads xss"
  by (simp_all add: heads_def)

lemma weave_round_effect:
  assumes "weave_round hasher fs st = (fs', st')"
  shows "map pending fs' = map tl (map pending fs) \<and>
         written st' = written st \<union> hasher ` set (heads (map pending fs)) \<and>
         sink st' = sink st @ file_of_lines (dedup hasher (written st) (heads (map pending fs))) \<and>
         anyAlive st' = (anyAlive st \<or> heads (map pending fs) \<noteq> [])"
  using assms
proof (induction fs arbitrary: st fs' st')
  case Nil
  then show ?case by (simp add: file_of_lines_def)
next
  case (Cons f fs)
  obtain f1 st1 where v: "visit hasher f st = (f1, st1)" by (cases "visit hasher f st")
  obtain fs1 st2 where r: "weave_round hasher fs st1 = (fs1, st2)"
    by (cases "weave_round hasher fs st1")
  from Cons.prems v r have eq: "fs' = f1 # fs1" "st' = st2" by auto
  note IH = Cons.IH[OF r]
  show ?case
  proof (cases "pending f")
    case Nil
    with visit_dead[OF Nil v] IH show ?thesis unfolding eq by simp
  next
    case (Cons l ls)
    from visit_alive[OF Cons v] have st1: "st1 = emit hasher l (st\<lparr>anyAlive := True\<rparr>)"
      and p1: "pending f1 = ls" by simp_all
    have w1: "written st1 = insert (hasher l) (written st)"
      by (simp add: st1 emit_written)
    have s1: "sink st1 = sink st @ file_of_lines (dedup hasher (written st) [l])"
      by (simp add: st1 emit_sink)
    have a1: "anyAlive st1" by (simp add: st1 emit_anyAlive)
    have "dedup hasher (written st) (l # heads (map pending fs)) =
          dedup hasher (written st) [l] @
          dedup hasher (insert (hasher l) (written st)) (heads (map pending fs))"
      using dedup_append[of hasher "written st" "[l]" "heads (map pending fs)"] by simp
    with IH w1 s1 a1 p1 Cons show ?thesis
      unfolding eq by (simp add: file_of_lines_append)
  qed
qed

subsection \<open>Rounds and the round-robin order\<close>

lemma transpose_aux_heads:
  "concat (map (case_list [] (\<lambda>h t. [h])) xss) = heads xss"
  by (simp add: heads_def transpose_aux_filter_head)

lemma transpose_drop_empty:
  "transpose (filter (\<lambda>xs. xs \<noteq> []) xss) = transpose xss"
proof (induction xss rule: transpose.induct)
  case 1
  show ?case by simp
next
  case (2 xss)
  then show ?case by simp
next
  case (3 x xs xss)
  have "concat (map (case_list [] (\<lambda>h t. [h])) (filter (\<lambda>xs. xs \<noteq> []) xss)) =
        concat (map (case_list [] (\<lambda>h t. [h])) xss)"
    by (induction xss) (auto split: list.splits)
  moreover have "concat (map (case_list [] (\<lambda>h t. [t])) (filter (\<lambda>xs. xs \<noteq> []) xss)) =
        concat (map (case_list [] (\<lambda>h t. [t])) xss)"
    by (induction xss) (auto split: list.splits)
  ultimately show ?case by simp
qed

lemma round_robin_unfold:
  "round_robin xss = heads xss @ round_robin (map tl xss)"
proof (induction xss)
  case Nil
  show ?case by (simp add: round_robin_def)
next
  case (Cons xs xss)
  show ?case
  proof (cases xs)
    case Nil
    with Cons show ?thesis by (simp add: round_robin_def)
  next
    case (Cons y ys)
    have "transpose (ys # concat (map (case_list [] (\<lambda>h t. [t])) xss)) =
          transpose (ys # map tl xss)"
    proof -
      have "filter (\<lambda>xs. xs \<noteq> []) (ys # concat (map (case_list [] (\<lambda>h t. [t])) xss)) =
            filter (\<lambda>xs. xs \<noteq> []) (ys # map tl xss)"
        by (induction xss) (auto split: list.splits)
      then show ?thesis by (metis transpose_drop_empty)
    qed
    with Cons show ?thesis
      by (simp add: round_robin_def transpose_aux_heads)
  qed
qed

lemma heads_Nil_iff: "heads xss = [] \<longleftrightarrow> (\<forall>xs\<in>set xss. xs = [])"
proof (induction xss)
  case Nil
  show ?case by simp
next
  case (Cons xs xss)
  then show ?case by (cases xs) simp_all
qed

lemma round_robin_all_empty: "heads xss = [] \<Longrightarrow> round_robin xss = []"
proof -
  assume "heads xss = []"
  then have "\<forall>xs\<in>set xss. xs = []" by (simp only: heads_Nil_iff)
  then have "transpose xss = []" by (simp only: transpose_empty)
  then show ?thesis by (simp add: round_robin_def)
qed

lemma heads_tl_all_empty: "heads xss = [] \<Longrightarrow> heads (map tl xss) = []"
  unfolding heads_Nil_iff by auto

subsection \<open>The whole loop\<close>

lemma weave_loop_stop: "\<not> anyAlive st \<Longrightarrow> weave_loop hasher fs st = (fs, st)"
  by (subst weave_loop.simps) simp

lemma weave_loop_step:
  "anyAlive st \<Longrightarrow> weave_round hasher fs (st\<lparr>anyAlive := False\<rparr>) = (fs1, st1) \<Longrightarrow>
     weave_loop hasher fs st = weave_loop hasher fs1 st1"
  by (subst weave_loop.simps) simp

lemma weave_loop_effect:
  assumes "weave_loop hasher fs st = (fs', st')"
    and "anyAlive st \<or> heads (map pending fs) = []"
  shows "written st' = written st \<union> hasher ` set (round_robin (map pending fs)) \<and>
         sink st' = sink st @
           file_of_lines (dedup hasher (written st) (round_robin (map pending fs)))"
  using assms
proof (induction hasher fs st arbitrary: fs' st' rule: weave_loop.induct)
  case (1 hasher fs st)
  show ?case
  proof (cases "anyAlive st")
    case False
    with "1.prems" have "fs' = fs" "st' = st" "heads (map pending fs) = []"
      by (simp_all add: weave_loop_stop)
    then show ?thesis by (simp add: round_robin_all_empty file_of_lines_def)
  next
    case True
    obtain fs1 st1 where r: "weave_round hasher fs (st\<lparr>anyAlive := False\<rparr>) = (fs1, st1)"
      by (cases "weave_round hasher fs (st\<lparr>anyAlive := False\<rparr>)")
    from "1.prems"(1) have run: "weave_loop hasher fs1 st1 = (fs', st')"
      by (simp add: weave_loop_step[OF True r])
    from weave_round_effect[OF r]
    have p1: "map pending fs1 = map tl (map pending fs)"
      and w1: "written st1 = written st \<union> hasher ` set (heads (map pending fs))"
      and s1: "sink st1 = sink st @
                 file_of_lines (dedup hasher (written st) (heads (map pending fs)))"
      and a1: "anyAlive st1 = (heads (map pending fs) \<noteq> [])"
      by simp_all
    have pre: "anyAlive st1 \<or> heads (map pending fs1) = []"
      using a1 p1 heads_tl_all_empty[of "map pending fs"] by auto
    from "1.IH"[OF True r[symmetric] run pre]
    have IH: "written st' = written st1 \<union> hasher ` set (round_robin (map pending fs1))"
      "sink st' = sink st1 @
         file_of_lines (dedup hasher (written st1) (round_robin (map pending fs1)))"
      by simp_all
    have rr: "round_robin (map pending fs) =
              heads (map pending fs) @ round_robin (map pending fs1)"
      using round_robin_unfold[of "map pending fs"] p1 by simp
    show ?thesis
      unfolding rr IH w1 s1
      by (simp add: dedup_append file_of_lines_append image_Un Un_assoc)
  qed
qed

subsection \<open>The merge as a function of the file contents\<close>

lemma open_files_eq:
  "open_files open_file paths =
     (map fresh (opened_contents open_file paths), open_warnings open_file paths)"
  by (induction paths) (auto simp: fresh_def split: option.splits)

lemma pending_fresh: "pending (fresh content) = lines_of content"
  by (simp add: pending_def fresh_def good_def)

lemma weaveMergeDedup_eq:
  "weaveMergeDedup hasher open_file paths out =
     (if opened_contents open_file paths = []
      then (out, open_warnings open_file paths @ [Error_no_files_opened])
      else (out @ file_of_lines (merge_lines hasher (opened_contents open_file paths)),
            open_warnings open_file paths))"
proof (cases "opened_contents open_file paths = []")
  case True
  then show ?thesis by (simp add: weaveMergeDedup_def open_files_eq)
next
  case False
  let ?fs = "map fresh (opened_contents open_file paths)"
  let ?st = "\<lparr>written = {}, sink = out, anyAlive = True\<rparr> :: 'a weave_state"
  obtain fs' st' where run: "weave_loop hasher ?fs ?st = (fs', st')"
    by (cases "weave_loop hasher ?fs ?st")
  have mp: "map pending ?fs = map lines_of (opened_contents open_file paths)"
    by (simp add: pending_fresh)
  have "anyAlive ?st \<or> heads (map pending ?fs) = []" by simp
  from weave_loop_effect[OF run this, unfolded mp] have
    "sink st' = out @ file_of_lines (merge_lines hasher (opened_contents open_file paths))"
    by (simp add: merge_lines_def)
  with False run show ?thesis by (simp add: weaveMergeDedup_def open_files_eq)
qed

subsection \<open>Facts about deduplication\<close>

lemma dedup_hashes: "seen \<union> h ` set (dedup h seen xs) = seen \<union> h ` set xs"
proof (induction xs arbitrary: seen)
  case Nil
  show ?case by simp
next
  case (Cons x xs)
  show ?case
  proof (cases "h x \<in> seen")
    case True
    with Cons.IH[of seen] show ?thesis by auto
  next
    case False
    have "seen \<union> h ` set (dedup h seen (x # xs)) =
          insert (h x) seen \<union> h ` set (dedup h (insert (h x) seen) xs)"
      using False by simp
    also have "\<dots> = insert (h x) seen \<union> h ` set xs" by (rule Cons.IH)
    finally show ?thesis by simp
  qed
qed

lemma dedup_fresh: "h ` set (dedup h seen xs) \<inter> seen = {}"
proof (induction xs arbitrary: seen)
  case Nil
  show ?case by simp
next
  case (Cons x xs)
  from Cons.IH[of seen] Cons.IH[of "insert (h x) seen"] show ?case by auto
qed

lemma dedup_distinct_hashes: "distinct (map h (dedup h seen xs))"
proof (induction xs arbitrary: seen)
  case Nil
  show ?case by simp
next
  case (Cons x xs)
  from dedup_fresh[of h "insert (h x) seen" xs]
  have "h x \<notin> h ` set (dedup h (insert (h x) seen) xs)" by auto
  with Cons.IH show ?case by simp
qed

lemma dedup_distinct: "distinct (dedup h seen xs)"
  using dedup_distinct_hashes[of h seen xs] by (simp add: distinct_map)

lemma dedup_subset: "set (dedup h seen xs) \<subseteq> set xs"
  by (induction xs arbitrary: seen) auto

lemma dedup_id:
  "distinct (map h xs) \<Longrightarrow> h ` set xs \<inter> seen = {} \<Longrightarrow> dedup h seen xs = xs"
proof (induction xs arbitrary: seen)
  case Nil
  show ?case by simp
next
  case (Cons x xs)
  from Cons.prems have "h ` set xs \<inter> insert (h x) seen = {}" by auto
  with Cons.IH[of "insert (h x) seen"] Cons.prems show ?case by auto
qed

lemma dedup_inj:
  "inj_on h (set xs \<union> seen) \<Longrightarrow> dedup h (h ` seen) xs = dedup (\<lambda>x. x) seen xs"
proof (induction xs arbitrary: seen)
  case Nil
  show ?case by simp
next
  case (Cons x xs)
  from Cons.prems have inj: "inj_on h (set xs \<union> insert x seen)"
    by simp
  from Cons.prems have mem: "h x \<in> h ` seen \<longleftrightarrow> x \<in> seen"
    by (auto dest: inj_onD)
  from Cons.prems have inj': "inj_on h (set xs \<union> seen)"
    by (rule inj_on_subset) auto
  show ?case
  proof (cases "x \<in> seen")
    case True
    with mem Cons.IH[OF inj'] show ?thesis by simp
  next
    case False
    with mem Cons.IH[OF inj] show ?thesis by simp
  qed
qed

lemma dedup_subseq:
  "\<forall>x\<in>seen'. h x \<in> seen \<Longrightarrow> subseq (dedup h seen xs) (dedup (\<lambda>x. x) seen' xs)"
proof (induction xs arbitrary: seen seen')
  case Nil
  show ?case by simp
next
  case (Cons x xs)
  show ?case
  proof (cases "h x \<in> seen")
    case True
    show ?thesis
    proof (cases "x \<in> seen'")
      case in_seen: True
      with True Cons.IH[OF Cons.prems] show ?thesis by simp
    next
      case False
      from Cons.prems True have "\<forall>y\<in>insert x seen'. h y \<in> seen" by simp
      from Cons.IH[OF this] have
        "subseq (dedup h seen xs) (x # dedup (\<lambda>x. x) (insert x seen') xs)"
        by (rule list_emb_Cons)
      with True False show ?thesis by simp
    qed
  next
    case False
    with Cons.prems have nx: "x \<notin> seen'" by auto
    from Cons.prems have "\<forall>y\<in>insert x seen'. h y \<in> insert (h x) seen" by simp
    from Cons.IH[OF this] False nx show ?thesis by simp
  qed
qed

lemma length_first_occurrences: "length (first_occurrences xs) = card (set xs)"
proof -
  have "set (dedup (\<lambda>x. x) seen xs) = set xs - seen" for seen :: "'a set"
    using dedup_hashes[of seen "\<lambda>x. x" xs] dedup_fresh[of "\<lambda>x. x" seen xs] by auto
  then have "set (first_occurrences xs) = set xs" by (simp add: first_occurrences_def)
  moreover have "distinct (first_occurrences xs)"
    unfolding first_occurrences_def by (rule dedup_distinct)
  ultimately show ?thesis by (metis distinct_card)
qed

lemma length_dedup_hashes: "length (dedup h {} xs) = card (h ` set xs)"
proof -
  have "distinct (map h (dedup h {} xs))" by (rule dedup_distinct_hashes)
  then have "card (set (map h (dedup h {} xs))) = length (map h (dedup h {} xs))"
    by (rule distinct_card)
  moreover have "set (map h (dedup h {} xs)) = h ` set xs"
    using dedup_hashes[of "{}" h xs] by simp
  ultimately show ?thesis by simp
qed

subsection \<open>The round-robin order as a rearrangement\<close>

lemma lines_of_no_newline: "l \<in> set (lines_of cs) \<Longrightarrow> newline \<notin> set l"
proof (induction cs rule: lines_of.induct)
  case (1 cs)
  show ?case
  proof (cases "cs = []")
    case True
    with "1.prems" show ?thesis by simp
  next
    case False
    with "1.prems" have "l = takeWhile (\<lambda>c. c \<noteq> newline) cs \<or>
        l \<in> set (lines_of (drop 1 (dropWhile (\<lambda>c. c \<noteq> newline) cs)))"
      by (simp add: lines_of_nonempty)
    then show ?thesis
    proof
      assume "l = takeWhile (\<lambda>c. c \<noteq> newline) cs"
      then show ?thesis by (auto dest: set_takeWhileD)
    next
      assume "l \<in> set (lines_of (drop 1 (dropWhile (\<lambda>c. c \<noteq> newline) cs)))"
      with "1.IH"[OF False] show ?thesis .
    qed
  qed
qed

lemma mset_heads_tails: "mset (heads xss) + mset (concat (map tl xss)) = mset (concat xss)"
proof (induction xss)
  case Nil
  show ?case by simp
next
  case (Cons xs xss)
  then show ?case by (cases xs) simp_all
qed

lemma mset_round_robin: "mset (round_robin xss) = mset (concat xss)"
proof (induction "length (concat xss)" arbitrary: xss rule: less_induct)
  case less
  show ?case
  proof (cases "heads xss = []")
    case True
    then have "\<forall>xs\<in>set xss. xs = []" by (simp only: heads_Nil_iff)
    then have "concat xss = []" by simp
    with True show ?thesis by (simp add: round_robin_all_empty)
  next
    case False
    have "size (mset (heads xss)) + size (mset (concat (map tl xss))) = size (mset (concat xss))"
      using mset_heads_tails[of xss] by (metis size_union)
    with False have "length (concat (map tl xss)) < length (concat xss)"
      by (cases "heads xss") simp_all
    then have "mset (round_robin (map tl xss)) = mset (concat (map tl xss))"
      by (rule less.hyps)
    then have "mset (round_robin xss) = mset (heads xss) + mset (concat (map tl xss))"
      using round_robin_unfold[of xss] by simp
    then show ?thesis by (simp only: mset_heads_tails)
  qed
qed

lemma set_round_robin: "set (round_robin xss) = set (concat xss)"
  using mset_round_robin[of xss] by (rule mset_eq_setD)

lemma distinct_map_round_robin:
  "distinct (map h (concat xss)) \<Longrightarrow> distinct (map h (round_robin xss))"
proof -
  have "mset (map h (round_robin xss)) = mset (map h (concat xss))"
    by (simp only: mset_map mset_round_robin)
  then show "distinct (map h (concat xss)) \<Longrightarrow> distinct (map h (round_robin xss))"
    by (metis mset_eq_imp_distinct_iff)
qed

lemma round_robin_rounds:
  "round_robin xss =
     concat (map (\<lambda>i. map (\<lambda>xs. xs ! i) (filter (\<lambda>xs. i < length xs) xss))
                 [0..<foldr (\<lambda>xs. max (length xs)) xss 0])"
proof -
  have "transpose xss = map (\<lambda>i. transpose xss ! i) [0..<length (transpose xss)]"
    by (simp add: map_nth)
  also have "\<dots> = map (\<lambda>i. map (\<lambda>xs. xs ! i) (filter (\<lambda>xs. i < length xs) xss))
                      [0..<length (transpose xss)]"
    by (rule map_cong) (simp_all add: nth_transpose)
  finally show ?thesis by (simp add: round_robin_def length_transpose)
qed

lemma weaveMergeDedup_output:
  "fst (weaveMergeDedup hasher open_file paths out) =
     out @ file_of_lines (merge_lines hasher (opened_contents open_file paths))"
  by (simp add: weaveMergeDedup_eq merge_lines_def round_robin_def file_of_lines_def)

lemma merge_lines_no_newline: "l \<in> set (merge_lines hasher contents) \<Longrightarrow> newline \<notin> set l"
proof -
  assume "l \<in> set (merge_lines hasher contents)"
  then have "l \<in> set (round_robin (map lines_of contents))"
    using dedup_subset[of hasher "{}"] by (auto simp: merge_lines_def)
  then obtain c where "l \<in> set (lines_of c)" by (auto simp: set_round_robin)
  then show ?thesis by (rule lines_of_no_newline)
qed

lemma lines_of_merge_output:
  "lines_of (file_of_lines (merge_lines hasher contents)) = merge_lines hasher contents"
  by (rule lines_of_file_of_lines) (blast dest: merge_lines_no_newline)

section \<open>The merge: order, deduplication, invariants\<close>

subsection \<open>Round-robin order\<close>

text \<open>
  C2, as the program has it. Let the files that open hold the line sequences \<open>lss\<close>, one sequence per file,
  every line followed by a delimiter, without duplicate lines, and let the hash
  function give different lines of this input different values. Then the output is
  the round-robin order of \<open>lss\<close>: round after round in increasing order, within a
  round the line of every file that still has one, in the order of the files; a file
  that has ended contributes nothing to later rounds. For the files \<open>[a1, a2]\<close> and
  \<open>[b1, b2, b3]\<close> the output is \<open>a1, b1, a2, b2, b3\<close>.
\<close>

theorem weave_round_robin_order:
  fixes hasher :: "string \<Rightarrow> 'h"
  assumes "\<forall>l\<in>set (concat lss). newline \<notin> set l"
    and "distinct (concat lss)"
    and "inj_on hasher (set (concat lss))"
    and "opened_contents open_file paths = map file_of_lines lss"
  shows "fst (weaveMergeDedup hasher open_file paths out) = out @ file_of_lines (round_robin lss) \<and>
         round_robin lss =
           concat (map (\<lambda>i. map (\<lambda>ls. ls ! i) (filter (\<lambda>ls. i < length ls) lss))
                       [0..<foldr (\<lambda>ls. max (length ls)) lss 0]) \<and>
         (lss = [[a1, a2], [b1, b2, b3]] \<longrightarrow>
            fst (weaveMergeDedup hasher open_file paths out) =
              out @ file_of_lines [a1, b1, a2, b2, b3])"
proof -
  have "\<forall>ls\<in>set lss. lines_of (file_of_lines ls) = ls"
    using assms(1) by (auto intro!: lines_of_file_of_lines)
  then have ml: "map (lines_of \<circ> file_of_lines) lss = lss"
    by (simp add: map_idI)
  have "distinct (map hasher (concat lss))"
    using assms(2,3) by (simp add: distinct_map)
  then have "distinct (map hasher (round_robin lss))"
    by (rule distinct_map_round_robin)
  then have "dedup hasher {} (round_robin lss) = round_robin lss"
    by (rule dedup_id) simp
  then have out: "fst (weaveMergeDedup hasher open_file paths out) =
      out @ file_of_lines (round_robin lss)"
    by (simp add: weaveMergeDedup_output merge_lines_def assms(4) ml)
  have ex: "round_robin [[a1, a2], [b1, b2, b3]] = [a1, b1, a2, b2, b3]"
    by (simp add: round_robin_def)
  from out ex round_robin_rounds[of lss] show ?thesis by simp
qed

theorem weave_round_robin_order_witness:
  "newline \<notin> set (concat (concat [[''a1'', ''a2''], [''b1'', ''b2'', ''b3'']])) \<and>
   distinct (concat [[''a1'', ''a2''], [''b1'', ''b2'', ''b3'']]) \<and>
   inj_on fnv1a_64 (set (concat [[''a1'', ''a2''], [''b1'', ''b2'', ''b3'']])) \<and>
   inj_on fnv1a_32 (set (concat [[''a1'', ''a2''], [''b1'', ''b2'', ''b3'']])) \<and>
   opened_contents
     [''A'' \<mapsto> file_of_lines [''a1'', ''a2''], ''B'' \<mapsto> file_of_lines [''b1'', ''b2'', ''b3'']]
     [''A'', ''B''] = map file_of_lines [[''a1'', ''a2''], [''b1'', ''b2'', ''b3'']] \<and>
   fst (weaveMergeDedup fnv1a_64
          [''A'' \<mapsto> file_of_lines [''a1'', ''a2''], ''B'' \<mapsto> file_of_lines [''b1'', ''b2'', ''b3'']]
          [''A'', ''B''] []) =
     file_of_lines [''a1'', ''b1'', ''a2'', ''b2'', ''b3''] \<and>
   fst (weaveMergeDedup fnv1a_32
          [''A'' \<mapsto> file_of_lines [''a1'', ''a2''], ''B'' \<mapsto> file_of_lines [''b1'', ''b2'', ''b3'']]
          [''A'', ''B''] []) =
     file_of_lines [''a1'', ''b1'', ''a2'', ''b2'', ''b3'']"
proof -
  let ?lss = "[[''a1'', ''a2''], [''b1'', ''b2'', ''b3'']]"
  let ?open = "[''A'' \<mapsto> file_of_lines [''a1'', ''a2''],
                ''B'' \<mapsto> file_of_lines [''b1'', ''b2'', ''b3'']]"
  have h0: "newline \<notin> set (concat (concat ?lss))"
    by (simp add: newline_def)
  have h1: "\<forall>l\<in>set (concat ?lss). newline \<notin> set l"
    by (simp add: newline_def)
  have h2: "distinct (concat ?lss)"
    by simp
  have h3: "inj_on fnv1a_64 (set (concat ?lss))"
    by (simp add: fnv1a_64_def)
  have h3': "inj_on fnv1a_32 (set (concat ?lss))"
    by (simp add: fnv1a_32_def)
  have h4: "opened_contents ?open [''A'', ''B''] = map file_of_lines ?lss"
    by simp
  from weave_round_robin_order[OF h1 h2 h3 h4, of "[]" "''a1''" "''a2''" "''b1''" "''b2''" "''b3''"]
  have a: "fst (weaveMergeDedup fnv1a_64 ?open [''A'', ''B''] []) =
          file_of_lines [''a1'', ''b1'', ''a2'', ''b2'', ''b3'']"
    by simp
  from weave_round_robin_order[OF h1 h2 h3' h4, of "[]" "''a1''" "''a2''" "''b1''" "''b2''" "''b3''"]
  have b: "fst (weaveMergeDedup fnv1a_32 ?open [''A'', ''B''] []) =
          file_of_lines [''a1'', ''b1'', ''a2'', ''b2'', ''b3'']"
    by simp
  from h0 h2 h3 h3' h4 a b show ?thesis by (intro conjI)
qed

text \<open>
  Without the condition on the hash function the order fails: under the 32-bit
  FNV-1a hash the lines \<open>costarring\<close> and \<open>liquid\<close> have the same hash, so with five
  different lines the first line of the second file is missing from the output.
\<close>

theorem weave_round_robin_order_collision:
  "distinct (concat [[''costarring'', ''a2''], [''liquid'', ''b2'', ''b3'']]) \<and>
   newline \<notin> set (concat (concat [[''costarring'', ''a2''], [''liquid'', ''b2'', ''b3'']])) \<and>
   fst (weaveMergeDedup fnv1a_32
          [''A'' \<mapsto> file_of_lines [''costarring'', ''a2''],
           ''B'' \<mapsto> file_of_lines [''liquid'', ''b2'', ''b3'']]
          [''A'', ''B''] []) =
     file_of_lines [''costarring'', ''a2'', ''b2'', ''b3''] \<and>
   fst (weaveMergeDedup fnv1a_32
          [''A'' \<mapsto> file_of_lines [''costarring'', ''a2''],
           ''B'' \<mapsto> file_of_lines [''liquid'', ''b2'', ''b3'']]
          [''A'', ''B''] []) \<noteq>
     file_of_lines [''costarring'', ''liquid'', ''a2'', ''b2'', ''b3'']"
proof -
  let ?open = "[''A'' \<mapsto> file_of_lines [''costarring'', ''a2''],
                ''B'' \<mapsto> file_of_lines [''liquid'', ''b2'', ''b3'']]"
  have d: "distinct (concat [[''costarring'', ''a2''], [''liquid'', ''b2'', ''b3'']])"
    by simp
  have n: "newline \<notin> set (concat (concat [[''costarring'', ''a2''], [''liquid'', ''b2'', ''b3'']]))"
    by (simp add: newline_def)
  have l: "lines_of (file_of_lines [''costarring'', ''a2'']) = [''costarring'', ''a2'']"
    "lines_of (file_of_lines [''liquid'', ''b2'', ''b3'']) = [''liquid'', ''b2'', ''b3'']"
    by (rule lines_of_file_of_lines, simp add: newline_def)+
  have cs: "opened_contents ?open [''A'', ''B''] =
      [file_of_lines [''costarring'', ''a2''], file_of_lines [''liquid'', ''b2'', ''b3'']]"
    by simp
  have h: "fnv1a_32 ''costarring'' = 1582148253" "fnv1a_32 ''liquid'' = 1582148253"
    "fnv1a_32 ''a2'' = 488946234" "fnv1a_32 ''b2'' = 2402036085" "fnv1a_32 ''b3'' = 2385258466"
    by (simp_all add: fnv1a_32_def)
  have "merge_lines fnv1a_32 (opened_contents ?open [''A'', ''B'']) =
      [''costarring'', ''a2'', ''b2'', ''b3'']"
    by (simp add: cs merge_lines_def l round_robin_def h)
  then have a: "fst (weaveMergeDedup fnv1a_32 ?open [''A'', ''B''] []) =
      file_of_lines [''costarring'', ''a2'', ''b2'', ''b3'']"
    by (simp add: weaveMergeDedup_output)
  have b: "fst (weaveMergeDedup fnv1a_32 ?open [''A'', ''B''] []) \<noteq>
      file_of_lines [''costarring'', ''liquid'', ''a2'', ''b2'', ''b3'']"
    unfolding a by (simp add: file_of_lines_def)
  from d n a b show ?thesis by (intro conjI)
qed

subsection \<open>Deduplication across files\<close>

text \<open>
  C3, as the program has it. Whatever the hash function, the output consists of lines of the round-robin
  order, no line occurs in it twice, and the lines written are among the first
  occurrences, in their order: a later line equal to an earlier one is never written.
  When the hash function separates the lines read, the output is exactly the sequence
  of first occurrences. For the files \<open>[x, y]\<close> and \<open>[x, z]\<close>, where \<open>x\<close>, \<open>y\<close> and \<open>z\<close>
  are different lines with different hashes, the output is \<open>x, y, z\<close>.
\<close>

theorem weave_first_occurrence_only:
  fixes hasher :: "string \<Rightarrow> 'h"
  shows "fst (weaveMergeDedup hasher open_file paths out) =
           out @ file_of_lines (merge_lines hasher (opened_contents open_file paths)) \<and>
         distinct (merge_lines hasher (opened_contents open_file paths)) \<and>
         subseq (merge_lines hasher (opened_contents open_file paths))
                (first_occurrences (round_robin (map lines_of (opened_contents open_file paths)))) \<and>
         (inj_on hasher (set (round_robin (map lines_of (opened_contents open_file paths)))) \<longrightarrow>
            merge_lines hasher (opened_contents open_file paths) =
              first_occurrences (round_robin (map lines_of (opened_contents open_file paths)))) \<and>
         (opened_contents open_file paths = [file_of_lines [x, y], file_of_lines [x, z]] \<and>
          newline \<notin> set x \<and> newline \<notin> set y \<and> newline \<notin> set z \<and>
          distinct [x, y, z] \<and> inj_on hasher {x, y, z} \<longrightarrow>
            fst (weaveMergeDedup hasher open_file paths out) = out @ file_of_lines [x, y, z])"
proof -
  let ?cs = "opened_contents open_file paths"
  let ?reads = "round_robin (map lines_of ?cs)"
  have a: "fst (weaveMergeDedup hasher open_file paths out) =
             out @ file_of_lines (merge_lines hasher ?cs)"
    by (rule weaveMergeDedup_output)
  have b: "distinct (merge_lines hasher ?cs)"
    unfolding merge_lines_def by (rule dedup_distinct)
  have c: "subseq (merge_lines hasher ?cs) (first_occurrences ?reads)"
    unfolding merge_lines_def first_occurrences_def by (rule dedup_subseq) simp
  have d: "merge_lines hasher ?cs = first_occurrences ?reads" if "inj_on hasher (set ?reads)"
    using dedup_inj[of hasher ?reads "{}"] that
    by (simp add: merge_lines_def first_occurrences_def)
  have e: "fst (weaveMergeDedup hasher open_file paths out) = out @ file_of_lines [x, y, z]"
    if cs: "?cs = [file_of_lines [x, y], file_of_lines [x, z]]"
      and nl: "newline \<notin> set x" "newline \<notin> set y" "newline \<notin> set z"
      and dist: "distinct [x, y, z]" and inj: "inj_on hasher {x, y, z}"
  proof -
    from dist inj have h: "hasher y \<noteq> hasher x" "hasher z \<noteq> hasher x" "hasher z \<noteq> hasher y"
      by (auto simp: inj_on_def)
    have "lines_of (file_of_lines [x, y]) = [x, y]" "lines_of (file_of_lines [x, z]) = [x, z]"
      using nl by (simp_all add: lines_of_file_of_lines)
    then have "merge_lines hasher ?cs = dedup hasher {} (round_robin [[x, y], [x, z]])"
      by (simp add: merge_lines_def cs)
    also have "\<dots> = [x, y, z]"
      using h by (simp add: round_robin_def)
    finally show ?thesis by (simp only: a)
  qed
  from a b c d e show ?thesis by blast
qed

theorem weave_first_occurrence_only_witness:
  "opened_contents
     [''A'' \<mapsto> file_of_lines [''x'', ''y''], ''B'' \<mapsto> file_of_lines [''x'', ''z'']]
     [''A'', ''B''] = [file_of_lines [''x'', ''y''], file_of_lines [''x'', ''z'']] \<and>
   newline \<notin> set ''x'' \<and> newline \<notin> set ''y'' \<and> newline \<notin> set ''z'' \<and>
   distinct [''x'', ''y'', ''z''] \<and>
   inj_on fnv1a_64 {''x'', ''y'', ''z''} \<and> inj_on fnv1a_32 {''x'', ''y'', ''z''} \<and>
   fst (weaveMergeDedup fnv1a_64
          [''A'' \<mapsto> file_of_lines [''x'', ''y''], ''B'' \<mapsto> file_of_lines [''x'', ''z'']]
          [''A'', ''B''] []) = file_of_lines [''x'', ''y'', ''z''] \<and>
   fst (weaveMergeDedup fnv1a_32
          [''A'' \<mapsto> file_of_lines [''x'', ''y''], ''B'' \<mapsto> file_of_lines [''x'', ''z'']]
          [''A'', ''B''] []) = file_of_lines [''x'', ''y'', ''z''] \<and>
   inj_on fnv1a_64 (set (round_robin (map lines_of
      (opened_contents
         [''A'' \<mapsto> file_of_lines [''x'', ''y''], ''B'' \<mapsto> file_of_lines [''x'', ''z'']]
         [''A'', ''B''])))) \<and>
   merge_lines fnv1a_64
     (opened_contents
        [''A'' \<mapsto> file_of_lines [''x'', ''y''], ''B'' \<mapsto> file_of_lines [''x'', ''z'']]
        [''A'', ''B'']) =
   first_occurrences (round_robin (map lines_of
     (opened_contents
        [''A'' \<mapsto> file_of_lines [''x'', ''y''], ''B'' \<mapsto> file_of_lines [''x'', ''z'']]
        [''A'', ''B''])))"
proof -
  let ?open = "[''A'' \<mapsto> file_of_lines [''x'', ''y''], ''B'' \<mapsto> file_of_lines [''x'', ''z'']]"
  have cs: "opened_contents ?open [''A'', ''B''] =
              [file_of_lines [''x'', ''y''], file_of_lines [''x'', ''z'']]"
    by simp
  have nl: "newline \<notin> set ''x''" "newline \<notin> set ''y''" "newline \<notin> set ''z''"
    by (simp_all add: newline_def)
  have d: "distinct [''x'', ''y'', ''z'']" by simp
  have i64: "inj_on fnv1a_64 {''x'', ''y'', ''z''}"
    by (simp add: fnv1a_64_def)
  have i32: "inj_on fnv1a_32 {''x'', ''y'', ''z''}"
    by (simp add: fnv1a_32_def)
  have "lines_of (file_of_lines [''x'', ''y'']) = [''x'', ''y'']"
    "lines_of (file_of_lines [''x'', ''z'']) = [''x'', ''z'']"
    using nl by (simp_all add: lines_of_file_of_lines)
  then have reads: "round_robin (map lines_of (opened_contents ?open [''A'', ''B''])) =
      [''x'', ''x'', ''y'', ''z'']"
    by (simp add: cs round_robin_def)
  have inj: "inj_on fnv1a_64 (set (round_robin (map lines_of (opened_contents ?open [''A'', ''B'']))))"
    unfolding reads using i64 by simp
  note inst = weave_first_occurrence_only[of fnv1a_64 ?open "[''A'', ''B'']" "[]" "''x''" "''y''" "''z''"]
  note inst' = weave_first_occurrence_only[of fnv1a_32 ?open "[''A'', ''B'']" "[]" "''x''" "''y''" "''z''"]
  from inst have
    "opened_contents ?open [''A'', ''B''] =
       [file_of_lines [''x'', ''y''], file_of_lines [''x'', ''z'']] \<and>
     newline \<notin> set ''x'' \<and> newline \<notin> set ''y'' \<and> newline \<notin> set ''z'' \<and>
     distinct [''x'', ''y'', ''z''] \<and> inj_on fnv1a_64 {''x'', ''y'', ''z''} \<longrightarrow>
     fst (weaveMergeDedup fnv1a_64 ?open [''A'', ''B''] []) = [] @ file_of_lines [''x'', ''y'', ''z'']"
    by (elim conjE)
  with cs nl d i64 have out: "fst (weaveMergeDedup fnv1a_64 ?open [''A'', ''B''] []) =
      file_of_lines [''x'', ''y'', ''z'']"
    by simp
  from inst' have
    "opened_contents ?open [''A'', ''B''] =
       [file_of_lines [''x'', ''y''], file_of_lines [''x'', ''z'']] \<and>
     newline \<notin> set ''x'' \<and> newline \<notin> set ''y'' \<and> newline \<notin> set ''z'' \<and>
     distinct [''x'', ''y'', ''z''] \<and> inj_on fnv1a_32 {''x'', ''y'', ''z''} \<longrightarrow>
     fst (weaveMergeDedup fnv1a_32 ?open [''A'', ''B''] []) = [] @ file_of_lines [''x'', ''y'', ''z'']"
    by (elim conjE)
  with cs nl d i32 have out': "fst (weaveMergeDedup fnv1a_32 ?open [''A'', ''B''] []) =
      file_of_lines [''x'', ''y'', ''z'']"
    by simp
  from inst have
    "inj_on fnv1a_64 (set (round_robin (map lines_of (opened_contents ?open [''A'', ''B'']))))
     \<longrightarrow> merge_lines fnv1a_64 (opened_contents ?open [''A'', ''B'']) =
      first_occurrences (round_robin (map lines_of (opened_contents ?open [''A'', ''B''])))"
    by (elim conjE)
  with inj have fo: "merge_lines fnv1a_64 (opened_contents ?open [''A'', ''B'']) =
      first_occurrences (round_robin (map lines_of (opened_contents ?open [''A'', ''B''])))"
    by (rule rev_mp)
  from cs nl d i64 i32 out out' inj fo show ?thesis by (intro conjI)
qed

text \<open>
  Without the condition on the hash function the example fails: with \<open>costarring\<close>
  for \<open>y\<close> and \<open>liquid\<close> for \<open>z\<close>, three different lines, the 32-bit FNV-1a hash
  gives \<open>y\<close> and \<open>z\<close> the same value and \<open>z\<close> is not written.
\<close>

theorem weave_first_occurrence_collision:
  "distinct [''x'', ''costarring'', ''liquid''] \<and>
   fst (weaveMergeDedup fnv1a_32
          [''A'' \<mapsto> file_of_lines [''x'', ''costarring''],
           ''B'' \<mapsto> file_of_lines [''x'', ''liquid'']]
          [''A'', ''B''] []) = file_of_lines [''x'', ''costarring''] \<and>
   fst (weaveMergeDedup fnv1a_32
          [''A'' \<mapsto> file_of_lines [''x'', ''costarring''],
           ''B'' \<mapsto> file_of_lines [''x'', ''liquid'']]
          [''A'', ''B''] []) \<noteq> file_of_lines [''x'', ''costarring'', ''liquid'']"
proof -
  let ?open = "[''A'' \<mapsto> file_of_lines [''x'', ''costarring''],
                ''B'' \<mapsto> file_of_lines [''x'', ''liquid'']]"
  have d: "distinct [''x'', ''costarring'', ''liquid'']" by simp
  have l: "lines_of (file_of_lines [''x'', ''costarring'']) = [''x'', ''costarring'']"
    "lines_of (file_of_lines [''x'', ''liquid'']) = [''x'', ''liquid'']"
    by (rule lines_of_file_of_lines, simp add: newline_def)+
  have cs: "opened_contents ?open [''A'', ''B''] =
      [file_of_lines [''x'', ''costarring''], file_of_lines [''x'', ''liquid'']]"
    by simp
  have h: "fnv1a_32 ''costarring'' = 1582148253" "fnv1a_32 ''liquid'' = 1582148253"
    "fnv1a_32 ''x'' = 4245442695"
    by (simp_all add: fnv1a_32_def)
  have "merge_lines fnv1a_32 (opened_contents ?open [''A'', ''B'']) = [''x'', ''costarring'']"
    by (simp add: cs merge_lines_def l round_robin_def h)
  then have a: "fst (weaveMergeDedup fnv1a_32 ?open [''A'', ''B''] []) =
      file_of_lines [''x'', ''costarring'']"
    by (simp add: weaveMergeDedup_output)
  have b: "fst (weaveMergeDedup fnv1a_32 ?open [''A'', ''B''] []) \<noteq>
      file_of_lines [''x'', ''costarring'', ''liquid'']"
    unfolding a by (simp add: file_of_lines_def)
  from d a b show ?thesis by (intro conjI)
qed

subsection \<open>Merging a file with itself\<close>

lemma round_robin_single: "round_robin [ls] = ls"
proof (induction ls)
  case Nil
  show ?case by (simp add: round_robin_def)
next
  case (Cons l ls)
  with round_robin_unfold[of "[l # ls]"] show ?case by simp
qed

lemma dedup_round_robin_twice: "dedup h seen (round_robin [ls, ls]) = dedup h seen ls"
proof (induction ls arbitrary: seen)
  case Nil
  show ?case by (simp add: round_robin_def)
next
  case (Cons l ls)
  have "round_robin [l # ls, l # ls] = l # l # round_robin [ls, ls]"
    using round_robin_unfold[of "[l # ls, l # ls]"] by simp
  with Cons show ?case by simp
qed

text \<open>
  C4. Merging a file woven with itself gives the same output as merging it alone,
  whatever the hash function, the start of the output and whether the file opens.
\<close>

theorem weave_self_idempotent:
  "fst (weaveMergeDedup hasher open_file [f, f] out) =
   fst (weaveMergeDedup hasher open_file [f] out)"
proof (cases "open_file f")
  case None
  then show ?thesis by (simp add: weaveMergeDedup_output merge_lines_def round_robin_def)
next
  case (Some content)
  then show ?thesis
    by (simp add: weaveMergeDedup_output merge_lines_def dedup_round_robin_twice
          round_robin_single)
qed

subsection \<open>The set of hashes\<close>

text \<open>
  C5. Visiting a stream never removes a hash from \<open>written\<close>, and it either leaves
  \<open>written\<close> and the output as they are or appends exactly one line and its delimiter
  to the output, the hash of that line being absent from \<open>written\<close> before and inserted
  with the write. Hence over a round and over the whole loop \<open>written\<close> only grows,
  and the lines the loop appends have pairwise different hashes, none of them in
  \<open>written\<close> at the start, and \<open>written\<close> at the end is \<open>written\<close> at the start plus
  the hashes of these lines.
\<close>

theorem written_grows_and_guards_output:
  fixes hasher :: "string \<Rightarrow> 'h"
  shows "(visit hasher f st = (f', st') \<longrightarrow>
            written st \<subseteq> written st' \<and>
            (written st' = written st \<and> sink st' = sink st \<or>
             (\<exists>line. hasher line \<notin> written st \<and>
                     written st' = insert (hasher line) (written st) \<and>
                     sink st' = sink st @ line @ [newline]))) \<and>
         (weave_round hasher fs st = (fs1, st1) \<longrightarrow> written st \<subseteq> written st1) \<and>
         (weave_loop hasher fs st = (fs2, st2) \<longrightarrow>
            written st \<subseteq> written st2 \<and>
            (\<exists>ls. sink st2 = sink st @ file_of_lines ls \<and>
                  distinct (map hasher ls) \<and>
                  hasher ` set ls \<inter> written st = {} \<and>
                  written st2 = written st \<union> hasher ` set ls))"
proof (intro conjI impI)
  assume v: "visit hasher f st = (f', st')"
  have step: "written st' = written st \<and> sink st' = sink st \<or>
        (\<exists>line. hasher line \<notin> written st \<and>
                written st' = insert (hasher line) (written st) \<and>
                sink st' = sink st @ line @ [newline])"
  proof (cases "pending f")
    case Nil
    from visit_dead[OF Nil v] show ?thesis by simp
  next
    case (Cons l ls)
    from visit_alive[OF Cons v] have st': "st' = emit hasher l (st\<lparr>anyAlive := True\<rparr>)" by simp
    show ?thesis
    proof (cases "hasher l \<in> written st")
      case True
      with st' show ?thesis by (simp add: emit_def)
    next
      case False
      with st' have "hasher l \<notin> written st \<and>
                written st' = insert (hasher l) (written st) \<and>
                sink st' = sink st @ l @ [newline]"
        by (simp add: emit_def)
      then show ?thesis by blast
    qed
  qed
  then show "written st \<subseteq> written st'" by auto
  from step show "written st' = written st \<and> sink st' = sink st \<or>
        (\<exists>line. hasher line \<notin> written st \<and>
                written st' = insert (hasher line) (written st) \<and>
                sink st' = sink st @ line @ [newline])" .
next
  assume "weave_round hasher fs st = (fs1, st1)"
  from weave_round_effect[OF this] show "written st \<subseteq> written st1" by auto
next
  assume run: "weave_loop hasher fs st = (fs2, st2)"
  have ex: "\<exists>ls. sink st2 = sink st @ file_of_lines ls \<and>
                  distinct (map hasher ls) \<and>
                  hasher ` set ls \<inter> written st = {} \<and>
                  written st2 = written st \<union> hasher ` set ls"
  proof (cases "anyAlive st")
    case False
    with run have "st2 = st" by (simp add: weave_loop_stop)
    then have "sink st2 = sink st @ file_of_lines [] \<and>
                  distinct (map hasher []) \<and>
                  hasher ` set [] \<inter> written st = {} \<and>
                  written st2 = written st \<union> hasher ` set []"
      by (simp add: file_of_lines_def)
    then show ?thesis by (rule exI)
  next
    case True
    let ?reads = "round_robin (map pending fs)"
    let ?ls = "dedup hasher (written st) ?reads"
    from True have "anyAlive st \<or> heads (map pending fs) = []" by simp
    from weave_loop_effect[OF run this]
    have w: "written st2 = written st \<union> hasher ` set ?reads"
      and s: "sink st2 = sink st @ file_of_lines ?ls" by simp_all
    have "written st2 = written st \<union> hasher ` set ?ls"
      unfolding w by (rule dedup_hashes[symmetric])
    with s dedup_distinct_hashes[of hasher "written st" ?reads]
      dedup_fresh[of hasher "written st" ?reads]
    have "sink st2 = sink st @ file_of_lines ?ls \<and>
                  distinct (map hasher ?ls) \<and>
                  hasher ` set ?ls \<inter> written st = {} \<and>
                  written st2 = written st \<union> hasher ` set ?ls"
      by (intro conjI)
    then show ?thesis by (rule exI)
  qed
  then show "written st \<subseteq> written st2" by auto
  from ex show "\<exists>ls. sink st2 = sink st @ file_of_lines ls \<and>
                  distinct (map hasher ls) \<and>
                  hasher ` set ls \<inter> written st = {} \<and>
                  written st2 = written st \<union> hasher ` set ls" .
qed


theorem written_grows_and_guards_output_witness:
  "visit fnv1a_32 (fresh ''a'') \<lparr>written = {}, sink = [], anyAlive = True\<rparr> =
     (\<lparr>unread = [], eofbit = True, failbit = False\<rparr>,
      \<lparr>written = {fnv1a_32 ''a''}, sink = ''a'' @ [newline], anyAlive = True\<rparr>) \<and>
   weave_round fnv1a_32 [fresh ''a''] \<lparr>written = {}, sink = [], anyAlive = True\<rparr> =
     ([\<lparr>unread = [], eofbit = True, failbit = False\<rparr>],
      \<lparr>written = {fnv1a_32 ''a''}, sink = ''a'' @ [newline], anyAlive = True\<rparr>) \<and>
   weave_loop fnv1a_32 [fresh ''a''] \<lparr>written = {}, sink = [], anyAlive = True\<rparr> =
     ([\<lparr>unread = [], eofbit = True, failbit = False\<rparr>],
      \<lparr>written = {fnv1a_32 ''a''}, sink = ''a'' @ [newline], anyAlive = False\<rparr>) \<and>
   (\<exists>line. fnv1a_32 line \<notin> {} \<and> {fnv1a_32 ''a''} = insert (fnv1a_32 line) {} \<and>
           ''a'' @ [newline] = [] @ line @ [newline]) \<and>
   (\<exists>ls. ''a'' @ [newline] = [] @ file_of_lines ls \<and> distinct (map fnv1a_32 ls) \<and>
         fnv1a_32 ` set ls \<inter> {} = {} \<and> {fnv1a_32 ''a''} = {} \<union> fnv1a_32 ` set ls)"
proof -
  let ?st0 = "\<lparr>written = {}, sink = [], anyAlive = True\<rparr> :: 32 word weave_state"
  let ?st1 = "\<lparr>written = {fnv1a_32 ''a''}, sink = ''a'' @ [newline], anyAlive = True\<rparr>"
  let ?st2 = "\<lparr>written = {fnv1a_32 ''a''}, sink = ''a'' @ [newline], anyAlive = False\<rparr>"
  let ?f1 = "\<lparr>unread = [], eofbit = True, failbit = False\<rparr>"
  have v: "visit fnv1a_32 (fresh ''a'') ?st0 = (?f1, ?st1)"
    by (simp add: visit_def getline_def good_def fresh_def emit_def newline_def)
  have r: "weave_round fnv1a_32 [fresh ''a''] ?st0 = ([?f1], ?st1)"
    by (simp add: v)
  have r1: "weave_round fnv1a_32 [fresh ''a''] (?st0\<lparr>anyAlive := False\<rparr>) = ([?f1], ?st1)"
    by (simp add: visit_def getline_def good_def fresh_def emit_def newline_def)
  have r2: "weave_round fnv1a_32 [?f1] (?st1\<lparr>anyAlive := False\<rparr>) = ([?f1], ?st2)"
    by (simp add: visit_def good_def)
  have "weave_loop fnv1a_32 [fresh ''a''] ?st0 = weave_loop fnv1a_32 [?f1] ?st1"
    by (rule weave_loop_step[OF _ r1]) simp
  also have "\<dots> = weave_loop fnv1a_32 [?f1] ?st2"
    by (rule weave_loop_step[OF _ r2]) simp
  also have "\<dots> = ([?f1], ?st2)"
    by (rule weave_loop_stop) simp
  finally have l: "weave_loop fnv1a_32 [fresh ''a''] ?st0 = ([?f1], ?st2)" .
  note inst = written_grows_and_guards_output[of fnv1a_32 "fresh ''a''" ?st0 ?f1 ?st1
      "[fresh ''a'']" "[?f1]" ?st1 "[?f1]" ?st2]
  from inst have "visit fnv1a_32 (fresh ''a'') ?st0 = (?f1, ?st1) \<longrightarrow>
      written ?st0 \<subseteq> written ?st1 \<and>
      (written ?st1 = written ?st0 \<and> sink ?st1 = sink ?st0 \<or>
       (\<exists>line. fnv1a_32 line \<notin> written ?st0 \<and>
               written ?st1 = insert (fnv1a_32 line) (written ?st0) \<and>
               sink ?st1 = sink ?st0 @ line @ [newline]))"
    by (elim conjE)
  with v have "written ?st1 = written ?st0 \<and> sink ?st1 = sink ?st0 \<or>
       (\<exists>line. fnv1a_32 line \<notin> written ?st0 \<and>
               written ?st1 = insert (fnv1a_32 line) (written ?st0) \<and>
               sink ?st1 = sink ?st0 @ line @ [newline])"
    by blast
  then have a: "\<exists>line. fnv1a_32 line \<notin> {} \<and> {fnv1a_32 ''a''} = insert (fnv1a_32 line) {} \<and>
           ''a'' @ [newline] = [] @ line @ [newline]"
    by simp
  from inst have "weave_loop fnv1a_32 [fresh ''a''] ?st0 = ([?f1], ?st2) \<longrightarrow>
      written ?st0 \<subseteq> written ?st2 \<and>
      (\<exists>ls. sink ?st2 = sink ?st0 @ file_of_lines ls \<and> distinct (map fnv1a_32 ls) \<and>
            fnv1a_32 ` set ls \<inter> written ?st0 = {} \<and>
            written ?st2 = written ?st0 \<union> fnv1a_32 ` set ls)"
    by (elim conjE)
  with l have "\<exists>ls. sink ?st2 = sink ?st0 @ file_of_lines ls \<and> distinct (map fnv1a_32 ls) \<and>
            fnv1a_32 ` set ls \<inter> written ?st0 = {} \<and>
            written ?st2 = written ?st0 \<union> fnv1a_32 ` set ls"
    by blast
  then have b: "\<exists>ls. ''a'' @ [newline] = [] @ file_of_lines ls \<and> distinct (map fnv1a_32 ls) \<and>
         fnv1a_32 ` set ls \<inter> {} = {} \<and> {fnv1a_32 ''a''} = {} \<union> fnv1a_32 ` set ls"
    by simp
  from v r l a b show ?thesis by (intro conjI)
qed

subsection \<open>The number of lines written\<close>

lemma opened_contents_cong:
  "map open_file' paths' = map open_file paths \<Longrightarrow>
     opened_contents open_file' paths' = opened_contents open_file paths"
proof (induction paths arbitrary: paths')
  case Nil
  then show ?case by simp
next
  case (Cons p ps)
  then obtain q qs where "paths' = q # qs" by (cases paths') auto
  with Cons show ?case by (auto split: option.splits)
qed

lemma length_merge_lines:
  "length (merge_lines hasher contents) = card (hasher ` unique_lines contents)"
  by (simp add: merge_lines_def unique_lines_def length_dedup_hashes set_round_robin)

text \<open>
  C7, as the program has it. The number of lines of the output is the number of
  distinct hash values of the lines read, which is the number of distinct lines when
  the hash function separates them; and two runs whose files open with the same
  contents in the same order write the same output.
\<close>

theorem weave_unique_line_count:
  fixes hasher :: "string \<Rightarrow> 'h"
  assumes "inj_on hasher (unique_lines (opened_contents open_file paths))"
  shows "length (lines_of (fst (weaveMergeDedup hasher open_file paths []))) =
           card (unique_lines (opened_contents open_file paths)) \<and>
         (map open_file' paths' = map open_file paths \<longrightarrow>
            fst (weaveMergeDedup hasher open_file' paths' out) =
            fst (weaveMergeDedup hasher open_file paths out))"
proof -
  let ?cs = "opened_contents open_file paths"
  have "length (lines_of (fst (weaveMergeDedup hasher open_file paths []))) =
        length (merge_lines hasher ?cs)"
    by (simp add: weaveMergeDedup_output lines_of_merge_output)
  also have "\<dots> = card (hasher ` unique_lines ?cs)" by (rule length_merge_lines)
  also have "\<dots> = card (unique_lines ?cs)" using assms by (rule card_image)
  finally have a: "length (lines_of (fst (weaveMergeDedup hasher open_file paths []))) =
      card (unique_lines ?cs)" .
  have b: "fst (weaveMergeDedup hasher open_file' paths' out) =
           fst (weaveMergeDedup hasher open_file paths out)"
    if "map open_file' paths' = map open_file paths"
    using opened_contents_cong[OF that] by (simp add: weaveMergeDedup_output)
  from a b show ?thesis by blast
qed

theorem weave_unique_line_count_witness:
  "inj_on fnv1a_32 (unique_lines (opened_contents
      [''A'' \<mapsto> file_of_lines [''b'', ''a''], ''B'' \<mapsto> file_of_lines [''a'', ''c'']]
      [''A'', ''B''])) \<and>
   length (lines_of (fst (weaveMergeDedup fnv1a_32
      [''A'' \<mapsto> file_of_lines [''b'', ''a''], ''B'' \<mapsto> file_of_lines [''a'', ''c'']]
      [''A'', ''B''] []))) = 3 \<and>
   map [''C'' \<mapsto> file_of_lines [''b'', ''a''], ''D'' \<mapsto> file_of_lines [''a'', ''c'']] [''C'', ''D''] =
   map [''A'' \<mapsto> file_of_lines [''b'', ''a''], ''B'' \<mapsto> file_of_lines [''a'', ''c'']] [''A'', ''B''] \<and>
   fst (weaveMergeDedup fnv1a_32
      [''C'' \<mapsto> file_of_lines [''b'', ''a''], ''D'' \<mapsto> file_of_lines [''a'', ''c'']]
      [''C'', ''D''] []) =
   fst (weaveMergeDedup fnv1a_32
      [''A'' \<mapsto> file_of_lines [''b'', ''a''], ''B'' \<mapsto> file_of_lines [''a'', ''c'']]
      [''A'', ''B''] [])"
proof -
  let ?open = "[''A'' \<mapsto> file_of_lines [''b'', ''a''], ''B'' \<mapsto> file_of_lines [''a'', ''c'']]"
  let ?open' = "[''C'' \<mapsto> file_of_lines [''b'', ''a''], ''D'' \<mapsto> file_of_lines [''a'', ''c'']]"
  have nl: "\<forall>l\<in>set [''b'', ''a'']. newline \<notin> set l" "\<forall>l\<in>set [''a'', ''c'']. newline \<notin> set l"
    by (simp_all add: newline_def)
  have u: "unique_lines (opened_contents ?open [''A'', ''B'']) = {''a'', ''b'', ''c''}"
    using nl by (auto simp: unique_lines_def lines_of_file_of_lines)
  have inj: "inj_on fnv1a_32 (unique_lines (opened_contents ?open [''A'', ''B'']))"
    unfolding u by (simp add: fnv1a_32_def)
  have c: "card (unique_lines (opened_contents ?open [''A'', ''B''])) = 3"
    unfolding u by simp
  have m: "map ?open' [''C'', ''D''] = map ?open [''A'', ''B'']" by simp
  note inst = weave_unique_line_count[OF inj, of ?open' "[''C'', ''D'']" "[]"]
  from inst c have len: "length (lines_of (fst (weaveMergeDedup fnv1a_32 ?open [''A'', ''B''] []))) = 3"
    by (simp only:)
  from inst have "map ?open' [''C'', ''D''] = map ?open [''A'', ''B''] \<longrightarrow>
      fst (weaveMergeDedup fnv1a_32 ?open' [''C'', ''D''] []) =
      fst (weaveMergeDedup fnv1a_32 ?open [''A'', ''B''] [])"
    by (elim conjE)
  with m have same: "fst (weaveMergeDedup fnv1a_32 ?open' [''C'', ''D''] []) =
      fst (weaveMergeDedup fnv1a_32 ?open [''A'', ''B''] [])"
    by (rule rev_mp)
  from inj len m same show ?thesis by (intro conjI)
qed

text \<open>
  Without the condition on the hash function the count fails: under the 32-bit
  FNV-1a hash the lines \<open>costarring\<close> and \<open>liquid\<close> have the same hash, so two files
  holding one of them each contain two distinct lines and the output has one.
\<close>

theorem weave_unique_line_count_collision:
  "card (unique_lines (opened_contents
      [''A'' \<mapsto> file_of_lines [''costarring''], ''B'' \<mapsto> file_of_lines [''liquid'']]
      [''A'', ''B''])) = 2 \<and>
   fst (weaveMergeDedup fnv1a_32
      [''A'' \<mapsto> file_of_lines [''costarring''], ''B'' \<mapsto> file_of_lines [''liquid'']]
      [''A'', ''B''] []) = file_of_lines [''costarring''] \<and>
   length (lines_of (fst (weaveMergeDedup fnv1a_32
      [''A'' \<mapsto> file_of_lines [''costarring''], ''B'' \<mapsto> file_of_lines [''liquid'']]
      [''A'', ''B''] []))) = 1"
proof -
  let ?open = "[''A'' \<mapsto> file_of_lines [''costarring''], ''B'' \<mapsto> file_of_lines [''liquid'']]"
  have nl: "\<forall>l\<in>set [''costarring'']. newline \<notin> set l" "\<forall>l\<in>set [''liquid'']. newline \<notin> set l"
    by (simp_all add: newline_def)
  have l: "lines_of (file_of_lines [''costarring'']) = [''costarring'']"
    "lines_of (file_of_lines [''liquid'']) = [''liquid'']"
    using nl by (simp_all add: lines_of_file_of_lines)
  have cs: "opened_contents ?open [''A'', ''B''] =
      [file_of_lines [''costarring''], file_of_lines [''liquid'']]"
    by simp
  have a: "card (unique_lines (opened_contents ?open [''A'', ''B''])) = 2"
    by (simp add: cs unique_lines_def l)
  have coll: "fnv1a_32 ''liquid'' = fnv1a_32 ''costarring''"
    by (simp add: fnv1a_32_def)
  have "merge_lines fnv1a_32 (opened_contents ?open [''A'', ''B'']) = [''costarring'']"
    by (simp add: cs merge_lines_def l round_robin_def coll)
  then have b: "fst (weaveMergeDedup fnv1a_32 ?open [''A'', ''B''] []) = file_of_lines [''costarring'']"
    by (simp add: weaveMergeDedup_output)
  have c: "length (lines_of (fst (weaveMergeDedup fnv1a_32 ?open [''A'', ''B''] []))) = 1"
    unfolding b l by simp
  from a b c show ?thesis by (intro conjI)
qed

text \<open>
  The condition cannot be dropped for any hash function with finitely many values,
  such as one into \<open>size_t\<close>: it gives two different lines the same value, and two
  files holding one of them each lose a line.
\<close>

lemma hash_collision_exists:
  fixes hasher :: "string \<Rightarrow> 'h::finite"
  shows "\<exists>l1 l2. l1 \<noteq> l2 \<and> newline \<notin> set l1 \<and> newline \<notin> set l2 \<and> hasher l1 = hasher l2"
proof -
  let ?f = "\<lambda>n::nat. replicate n (CHR ''a'')"
  have "inj ?f"
  proof (rule injI)
    fix m n :: nat
    assume "?f m = ?f n"
    then have "length (?f m) = length (?f n)" by (rule arg_cong)
    then show "m = n" by simp
  qed
  then have inf: "infinite (range ?f)" by (simp add: finite_image_iff)
  have fin: "finite (hasher ` range ?f)" by (rule finite)
  have "\<not> inj_on hasher (range ?f)"
  proof
    assume "inj_on hasher (range ?f)"
    with fin have "finite (range ?f)" by (rule finite_imageD)
    with inf show False by simp
  qed
  then obtain l1 l2 where "l1 \<in> range ?f" "l2 \<in> range ?f" "l1 \<noteq> l2" "hasher l1 = hasher l2"
    unfolding inj_on_def by blast
  moreover have "newline \<notin> set l" if "l \<in> range ?f" for l
    using that by (auto simp: newline_def)
  ultimately show ?thesis by blast
qed

lemma unique_line_count_fails_for_finite_hash:
  fixes hasher :: "string \<Rightarrow> 'h::finite"
  shows "\<exists>l1 l2. card (unique_lines [file_of_lines [l1], file_of_lines [l2]]) = 2 \<and>
                 merge_lines hasher [file_of_lines [l1], file_of_lines [l2]] = [l1]"
proof -
  from hash_collision_exists[of hasher] obtain l1 l2
    where ne: "l1 \<noteq> l2" and nl: "newline \<notin> set l1" "newline \<notin> set l2"
      and coll: "hasher l1 = hasher l2"
    by blast
  have l: "lines_of (file_of_lines [l1]) = [l1]" "lines_of (file_of_lines [l2]) = [l2]"
    using nl by (simp_all add: lines_of_file_of_lines)
  have "card (unique_lines [file_of_lines [l1], file_of_lines [l2]]) = 2"
    using ne by (simp add: unique_lines_def l)
  moreover have "merge_lines hasher [file_of_lines [l1], file_of_lines [l2]] = [l1]"
    using coll by (simp add: merge_lines_def l round_robin_def)
  ultimately show ?thesis by blast
qed

subsection \<open>A last line without a delimiter\<close>

lemma lines_of_final_newline:
  assumes "cs \<noteq> []" and "last cs \<noteq> newline"
  shows "lines_of (cs @ [newline]) = lines_of cs"
  using assms
proof (induction cs rule: lines_of.induct)
  case (1 cs)
  let ?l = "takeWhile (\<lambda>c. c \<noteq> newline) cs"
  let ?d = "dropWhile (\<lambda>c. c \<noteq> newline) cs"
  show ?case
  proof (cases "newline \<in> set cs")
    case False
    then have "lines_of (cs @ newline # []) = cs # lines_of []"
      by (rule lines_of_line_Cons)
    moreover from False "1.prems"(1) have "lines_of cs = [cs]"
      by (simp add: lines_of_unterminated)
    ultimately show ?thesis by simp
  next
    case True
    then have d: "?d = newline # drop 1 ?d"
      by (metis (mono_tags, lifting) One_nat_def drop0 drop_Suc_Cons dropWhile_eq_Nil_conv
            hd_dropWhile list.collapse)
    have cs: "cs = ?l @ newline # drop 1 ?d"
      using d by (metis takeWhile_dropWhile_id)
    have nl: "newline \<notin> set ?l" by (auto dest: set_takeWhileD)
    have ne: "drop 1 ?d \<noteq> []"
    proof
      assume "drop 1 ?d = []"
      with cs have "cs = ?l @ [newline]" by simp
      then have "last cs = newline" by (metis last_snoc)
      with "1.prems"(2) show False by simp
    qed
    have lst: "last (drop 1 ?d) \<noteq> newline"
      using "1.prems"(2) cs ne by (metis last_ConsR last_appendR list.distinct(1))
    have "lines_of (cs @ [newline]) = ?l # lines_of (drop 1 ?d @ [newline])"
      using lines_of_line_Cons[OF nl, of "drop 1 ?d @ [newline]"] cs
      by (metis append.assoc append_Cons)
    also have "lines_of (drop 1 ?d @ [newline]) = lines_of (drop 1 ?d)"
      using "1.prems"(1) ne lst by (rule "1.IH")
    also have "?l # lines_of (drop 1 ?d) = lines_of cs"
      using "1.prems"(1) by (simp add: lines_of_nonempty)
    finally show ?thesis .
  qed
qed

text \<open>
  C10. Let a file end in a non-empty line \<open>final\<close> without a delimiter, after a part
  \<open>body\<close> that is empty or ends in a delimiter. Then \<open>final\<close> is the last of the lines
  the reads deliver. The read that reaches it succeeds: the line goes through the
  deduplication decision and the round counts as alive, and when its hash is new the
  line and one delimiter are appended to the output. The stream is left at its end
  and not good, so the next visit passes it over. The output of a merge is the same as
  if the file had ended in a delimiter.
\<close>

theorem unterminated_final_line:
  fixes hasher :: "string \<Rightarrow> 'h"
  assumes "final \<noteq> []" and "newline \<notin> set final" and "body = [] \<or> last body = newline"
  shows "lines_of (body @ final) = lines_of body @ [final] \<and>
         visit hasher \<lparr>unread = final, eofbit = False, failbit = False\<rparr> st =
           (\<lparr>unread = [], eofbit = True, failbit = False\<rparr>,
            emit hasher final (st\<lparr>anyAlive := True\<rparr>)) \<and>
         (hasher final \<notin> written st \<longrightarrow>
            sink (emit hasher final (st\<lparr>anyAlive := True\<rparr>)) = sink st @ final @ [newline]) \<and>
         (hasher final \<in> written st \<longrightarrow>
            sink (emit hasher final (st\<lparr>anyAlive := True\<rparr>)) = sink st) \<and>
         \<not> good \<lparr>unread = [], eofbit = True, failbit = False\<rparr> \<and>
         visit hasher \<lparr>unread = [], eofbit = True, failbit = False\<rparr> st' =
           (\<lparr>unread = [], eofbit = True, failbit = False\<rparr>, st') \<and>
         (opened_contents open_file paths = before @ [body @ final] @ after \<and>
          opened_contents open_file' paths' = before @ [body @ final @ [newline]] @ after \<longrightarrow>
            fst (weaveMergeDedup hasher open_file paths out) =
            fst (weaveMergeDedup hasher open_file' paths' out))"
proof -
  have a: "lines_of (body @ final) = lines_of body @ [final]"
    using assms by (simp add: lines_of_append_line lines_of_unterminated)
  have tw: "takeWhile (\<lambda>c. c \<noteq> newline) final = final"
    using assms(2) by (auto simp: takeWhile_eq_all_conv)
  have dw: "dropWhile (\<lambda>c. c \<noteq> newline) final = []"
    using assms(2) by (auto simp: dropWhile_eq_Nil_conv)
  have b: "visit hasher \<lparr>unread = final, eofbit = False, failbit = False\<rparr> st =
           (\<lparr>unread = [], eofbit = True, failbit = False\<rparr>,
            emit hasher final (st\<lparr>anyAlive := True\<rparr>))"
    using assms(1,2) by (simp add: visit_def good_def getline_def extract_line_eq tw dw)
  have c: "sink (emit hasher final (st\<lparr>anyAlive := True\<rparr>)) = sink st @ final @ [newline]"
    if "hasher final \<notin> written st"
    using that by (simp add: emit_def)
  have c': "sink (emit hasher final (st\<lparr>anyAlive := True\<rparr>)) = sink st"
    if "hasher final \<in> written st"
    using that by (simp add: emit_def)
  have d: "\<not> good \<lparr>unread = [], eofbit = True, failbit = False\<rparr>"
    by (simp add: good_def)
  have e: "visit hasher \<lparr>unread = [], eofbit = True, failbit = False\<rparr> st' =
           (\<lparr>unread = [], eofbit = True, failbit = False\<rparr>, st')"
    by (simp add: visit_def good_def)
  have "body @ final \<noteq> []" "last (body @ final) \<noteq> newline"
    using assms(1,2) by (auto simp: last_append) (metis last_in_set)
  then have "lines_of ((body @ final) @ [newline]) = lines_of (body @ final)"
    by (rule lines_of_final_newline)
  then have f: "fst (weaveMergeDedup hasher open_file paths out) =
            fst (weaveMergeDedup hasher open_file' paths' out)"
    if "opened_contents open_file paths = before @ [body @ final] @ after"
      and "opened_contents open_file' paths' = before @ [body @ final @ [newline]] @ after"
    using that by (simp add: weaveMergeDedup_output merge_lines_def)
  from a b c c' d e f show ?thesis by blast
qed

theorem unterminated_final_line_witness:
  "''two'' \<noteq> [] \<and> newline \<notin> set ''two'' \<and>
   (''one'' @ [newline] = [] \<or> last (''one'' @ [newline]) = newline) \<and>
   lines_of ((''one'' @ [newline]) @ ''two'') = [''one'', ''two''] \<and>
   fst (weaveMergeDedup fnv1a_32 [''A'' \<mapsto> (''one'' @ [newline]) @ ''two''] [''A''] []) =
     file_of_lines [''one'', ''two'']"
proof -
  let ?body = "''one'' @ [newline]"
  have h1: "''two'' \<noteq> []" by simp
  have h2: "newline \<notin> set ''two''" by (simp add: newline_def)
  have h3: "?body = [] \<or> last ?body = newline" by simp
  let ?st = "\<lparr>written = {}, sink = [], anyAlive = False\<rparr> :: 32 word weave_state"
  note inst = unterminated_final_line[OF h1 h2 h3, where hasher = fnv1a_32
      and st = ?st and st' = ?st
      and open_file = "[''A'' \<mapsto> ?body @ ''two'']" and paths = "[''A'']"
      and open_file' = "[''B'' \<mapsto> ?body @ ''two'' @ [newline]]" and paths' = "[''B'']"
      and before = "[]" and after = "[]" and out = "[]"]
  have one: "lines_of ?body = [''one'']"
    using lines_of_file_of_lines[of "[''one'']"] by (simp add: file_of_lines_def newline_def)
  from inst have "lines_of (?body @ ''two'') = lines_of ?body @ [''two'']"
    by (elim conjE)
  with one have l: "lines_of (?body @ ''two'') = [''one'', ''two'']" by simp
  from inst
  have "opened_contents [''A'' \<mapsto> ?body @ ''two''] [''A''] = [] @ [?body @ ''two''] @ [] \<and>
        opened_contents [''B'' \<mapsto> ?body @ ''two'' @ [newline]] [''B''] =
          [] @ [?body @ ''two'' @ [newline]] @ [] \<longrightarrow>
        fst (weaveMergeDedup fnv1a_32 [''A'' \<mapsto> ?body @ ''two''] [''A''] []) =
        fst (weaveMergeDedup fnv1a_32 [''B'' \<mapsto> ?body @ ''two'' @ [newline]] [''B''] [])"
    by (elim conjE)
  then have "fst (weaveMergeDedup fnv1a_32 [''A'' \<mapsto> ?body @ ''two''] [''A''] []) =
        fst (weaveMergeDedup fnv1a_32 [''B'' \<mapsto> ?body @ ''two'' @ [newline]] [''B''] [])"
    by simp
  also have "\<dots> = file_of_lines (merge_lines fnv1a_32 [file_of_lines [''one'', ''two'']])"
    by (simp add: weaveMergeDedup_output file_of_lines_def)
  also have "merge_lines fnv1a_32 [file_of_lines [''one'', ''two'']] = [''one'', ''two'']"
  proof -
    have "lines_of (file_of_lines [''one'', ''two'']) = [''one'', ''two'']"
      by (rule lines_of_file_of_lines) (simp add: newline_def)
    then show ?thesis
      by (simp add: merge_lines_def round_robin_single fnv1a_32_def)
  qed
  finally have out: "fst (weaveMergeDedup fnv1a_32 [''A'' \<mapsto> ?body @ ''two''] [''A''] []) =
      file_of_lines [''one'', ''two'']" .
  from h1 h2 h3 l out show ?thesis by (intro conjI)
qed

section \<open>Pattern expansion: literal patterns\<close>

lemma expand_pattern_literal:
  "\<not> has_wildcard pattern \<Longrightarrow> status_of fs pattern = Some ty \<Longrightarrow>
     expand_pattern fs pattern (result, err) =
       (if ty = regular then Inr (result @ [pattern], err)
        else Inr (result, err @ [Warning_not_a_regular_file pattern]))"
  by (simp add: expand_pattern_def)

lemma expand_pattern_wildcard_returns:
  "has_wildcard pattern \<Longrightarrow> \<exists>r. expand_pattern fs pattern acc = Inr r"
  by (cases acc) (simp add: expand_pattern_def Let_def split: option.splits prod.splits)

lemma expand_pattern_returns:
  "(\<not> has_wildcard pattern \<longrightarrow> status_of fs pattern \<noteq> None) \<Longrightarrow>
     \<exists>r. expand_pattern fs pattern acc = Inr r"
proof (cases "has_wildcard pattern")
  case True
  then show ?thesis by (rule expand_pattern_wildcard_returns)
next
  case False
  assume "\<not> has_wildcard pattern \<longrightarrow> status_of fs pattern \<noteq> None"
  with False obtain ty where "status_of fs pattern = Some ty" by auto
  with False show ?thesis by (cases acc) (simp add: expand_pattern_literal)
qed

lemma expand_loop_returns:
  "\<forall>p\<in>set patterns. \<not> has_wildcard p \<longrightarrow> status_of fs p \<noteq> None \<Longrightarrow>
     \<exists>r. expand_loop fs patterns acc = Inr r"
proof (induction patterns arbitrary: acc)
  case Nil
  show ?case by simp
next
  case (Cons p ps)
  from Cons.prems have "\<not> has_wildcard p \<longrightarrow> status_of fs p \<noteq> None" by simp
  then obtain acc' where "expand_pattern fs p acc = Inr acc'"
    using expand_pattern_returns by blast
  moreover from Cons.prems have "\<exists>r. expand_loop fs ps acc' = Inr r"
    by (intro Cons.IH) simp
  ultimately show ?case by simp
qed

lemma expand_loop_literals:
  "\<forall>p\<in>set patterns. \<not> has_wildcard p \<and> status_of fs p \<noteq> None \<Longrightarrow>
     expand_loop fs patterns (result, err) =
       Inr (result @ filter (\<lambda>p. status_of fs p = Some regular) patterns,
            err @ map Warning_not_a_regular_file
                    (filter (\<lambda>p. status_of fs p \<noteq> Some regular) patterns))"
proof (induction patterns arbitrary: result err)
  case Nil
  show ?case by simp
next
  case (Cons p ps)
  from Cons.prems obtain ty where ty: "status_of fs p = Some ty" and lit: "\<not> has_wildcard p"
    by auto
  from Cons.prems have rest: "\<forall>p\<in>set ps. \<not> has_wildcard p \<and> status_of fs p \<noteq> None"
    by simp
  show ?case
  proof (cases "ty = regular")
    case True
    with ty lit Cons.IH[OF rest, of "result @ [p]" err] show ?thesis
      by (simp add: expand_pattern_literal)
  next
    case False
    with ty lit Cons.IH[OF rest, of result "err @ [Warning_not_a_regular_file p]"] show ?thesis
      by (simp add: expand_pattern_literal)
  qed
qed

text \<open>
  The literal branch when the status query answers. Let a pattern contain no wildcard
  character and let the status query on it answer (a missing file is the answer
  \<open>not_found\<close>). Then the pattern is appended to the result exactly when it names a
  regular file, and otherwise a warning is recorded and the result is left as it is.
  For a list of such patterns the result is the sublist of the patterns that name
  regular files, with one warning for each of the others. The expansion of any list
  of patterns returns, without raising, as long as the status queries on its literal
  patterns answer.
\<close>

lemma literal_pattern_expansion:
  assumes "\<not> has_wildcard pattern" and "status_of fs pattern = Some ty"
  shows "(ty = regular \<longrightarrow>
            expand_pattern fs pattern (result, err) = Inr (result @ [pattern], err)) \<and>
         (ty \<noteq> regular \<longrightarrow>
            expand_pattern fs pattern (result, err) =
              Inr (result, err @ [Warning_not_a_regular_file pattern])) \<and>
         ((\<forall>p\<in>set literals. \<not> has_wildcard p \<and> status_of fs p \<noteq> None) \<longrightarrow>
            expandFilePaths fs literals =
              Inr (filter (\<lambda>p. status_of fs p = Some regular) literals,
                   map Warning_not_a_regular_file
                     (filter (\<lambda>p. status_of fs p \<noteq> Some regular) literals))) \<and>
         ((\<forall>p\<in>set patterns. \<not> has_wildcard p \<longrightarrow> status_of fs p \<noteq> None) \<longrightarrow>
            (\<exists>r. expandFilePaths fs patterns = Inr r))"
proof -
  from assms have a: "expand_pattern fs pattern (result, err) =
       (if ty = regular then Inr (result @ [pattern], err)
        else Inr (result, err @ [Warning_not_a_regular_file pattern]))"
    by (rule expand_pattern_literal)
  have b: "expandFilePaths fs literals =
              Inr (filter (\<lambda>p. status_of fs p = Some regular) literals,
                   map Warning_not_a_regular_file
                     (filter (\<lambda>p. status_of fs p \<noteq> Some regular) literals))"
    if "\<forall>p\<in>set literals. \<not> has_wildcard p \<and> status_of fs p \<noteq> None"
    using expand_loop_literals[OF that, of "[]" "[]"] by (simp add: expandFilePaths_def)
  have c: "\<exists>r. expandFilePaths fs patterns = Inr r"
    if "\<forall>p\<in>set patterns. \<not> has_wildcard p \<longrightarrow> status_of fs p \<noteq> None"
    unfolding expandFilePaths_def using that by (rule expand_loop_returns)
  from a b c show ?thesis by simp
qed

lemma literal_pattern_expansion_example:
  "\<not> has_wildcard ''a.txt'' \<and> status_of sample_fs ''a.txt'' = Some regular \<and>
   expand_pattern sample_fs ''a.txt'' ([], []) = Inr ([''a.txt''], []) \<and>
   \<not> has_wildcard ''b.txt'' \<and> status_of sample_fs ''b.txt'' = Some not_found \<and>
   expand_pattern sample_fs ''b.txt'' ([], []) = Inr ([], [Warning_not_a_regular_file ''b.txt'']) \<and>
   list_all (\<lambda>p. \<not> has_wildcard p \<and> status_of sample_fs p \<noteq> None)
     [''b.txt'', ''a.txt'', ''.''] \<and>
   expandFilePaths sample_fs [''b.txt'', ''a.txt'', ''.''] =
     Inr ([''a.txt''], [Warning_not_a_regular_file ''b.txt'', Warning_not_a_regular_file ''.'']) \<and>
   has_wildcard ''gone/*.txt'' \<and> status_of sample_fs ''gone'' = Some not_found \<and>
   expandFilePaths sample_fs [''gone/*.txt'', ''b.txt''] =
     Inr ([], [Warning_directory_not_found ''gone/*.txt'', Warning_not_a_regular_file ''b.txt''])"
proof -
  have w1: "\<not> has_wildcard ''a.txt''" and w2: "\<not> has_wildcard ''b.txt''"
    by (simp_all add: has_wildcard_def)
  have s1: "status_of sample_fs ''a.txt'' = Some regular"
    and s2: "status_of sample_fs ''b.txt'' = Some not_found"
    by (simp_all add: sample_fs_def)
  have l: "\<forall>p\<in>set [''b.txt'', ''a.txt'', ''.'']. \<not> has_wildcard p \<and> status_of sample_fs p \<noteq> None"
    by (simp add: has_wildcard_def sample_fs_def)
  have g: "\<forall>p\<in>set [''gone/*.txt'', ''b.txt'']. \<not> has_wildcard p \<longrightarrow> status_of sample_fs p \<noteq> None"
    by (simp add: has_wildcard_def sample_fs_def)
  note i1 = literal_pattern_expansion[OF w1 s1, where result = "[]" and err = "[]"
      and literals = "[''b.txt'', ''a.txt'', ''.'']" and patterns = "[''gone/*.txt'', ''b.txt'']"]
  note i2 = literal_pattern_expansion[OF w2 s2, where result = "[]" and err = "[]"
      and literals = "[]" and patterns = "[]"]
  from i1 have a: "expand_pattern sample_fs ''a.txt'' ([], []) = Inr ([''a.txt''], [])"
    by simp
  from i2 have b: "expand_pattern sample_fs ''b.txt'' ([], []) =
      Inr ([], [Warning_not_a_regular_file ''b.txt''])"
    by simp
  from i1 have "(\<forall>p\<in>set [''b.txt'', ''a.txt'', ''.''].
        \<not> has_wildcard p \<and> status_of sample_fs p \<noteq> None) \<longrightarrow>
      expandFilePaths sample_fs [''b.txt'', ''a.txt'', ''.''] =
        Inr (filter (\<lambda>p. status_of sample_fs p = Some regular) [''b.txt'', ''a.txt'', ''.''],
             map Warning_not_a_regular_file
               (filter (\<lambda>p. status_of sample_fs p \<noteq> Some regular) [''b.txt'', ''a.txt'', ''.'']))"
    by (elim conjE)
  with l have "expandFilePaths sample_fs [''b.txt'', ''a.txt'', ''.''] =
        Inr (filter (\<lambda>p. status_of sample_fs p = Some regular) [''b.txt'', ''a.txt'', ''.''],
             map Warning_not_a_regular_file
               (filter (\<lambda>p. status_of sample_fs p \<noteq> Some regular) [''b.txt'', ''a.txt'', ''.'']))"
    by (rule rev_mp)
  then have c: "expandFilePaths sample_fs [''b.txt'', ''a.txt'', ''.''] =
     Inr ([''a.txt''], [Warning_not_a_regular_file ''b.txt'', Warning_not_a_regular_file ''.''])"
    by (simp add: sample_fs_def)
  from i1 have "(\<forall>p\<in>set [''gone/*.txt'', ''b.txt''].
        \<not> has_wildcard p \<longrightarrow> status_of sample_fs p \<noteq> None) \<longrightarrow>
      (\<exists>r. expandFilePaths sample_fs [''gone/*.txt'', ''b.txt''] = Inr r)"
    by (elim conjE)
  with g have "\<exists>r. expandFilePaths sample_fs [''gone/*.txt'', ''b.txt''] = Inr r"
    by (rule rev_mp)
  then have d: "expandFilePaths sample_fs [''gone/*.txt'', ''b.txt''] =
     Inr ([], [Warning_directory_not_found ''gone/*.txt'', Warning_not_a_regular_file ''b.txt''])"
    by (simp add: expandFilePaths_def expand_pattern_def has_wildcard_def sample_fs_def)
  have l': "list_all (\<lambda>p. \<not> has_wildcard p \<and> status_of sample_fs p \<noteq> None)
     [''b.txt'', ''a.txt'', ''.'']"
    using l by (simp add: list_all_iff)
  have g1: "has_wildcard ''gone/*.txt''" by (simp add: has_wildcard_def)
  have g2: "status_of sample_fs ''gone'' = Some not_found" by (simp add: sample_fs_def)
  from w1 s1 a w2 s2 b l' c g1 g2 d show ?thesis by (intro conjI)
qed


lemma expand_pattern_literal_raises:
  "\<not> has_wildcard pattern \<Longrightarrow> status_of fs pattern = None \<Longrightarrow>
     expand_pattern fs pattern acc = Inl Unhandled_filesystem_error"
  by (cases acc) (simp add: expand_pattern_def)

lemma expand_pattern_wildcard_catches:
  "has_wildcard pattern \<Longrightarrow>
   status_of fs (if parent_path_of fs pattern = [] then ''.'' else parent_path_of fs pattern) = None \<Longrightarrow>
     expand_pattern fs pattern (result, err) =
       Inr (result, err @ [Warning_error_processing_pattern pattern])"
  by (simp add: expand_pattern_def Let_def)

lemma long_name_facts:
  "length long_name = 300" "\<not> has_wildcard long_name"
  "long_name \<noteq> ''-o''" "long_name \<noteq> ''--output''"
proof -
  show len: "length long_name = 300" by (simp add: long_name_def)
  show "\<not> has_wildcard long_name" by (simp add: long_name_def has_wildcard_def)
  show "long_name \<noteq> ''-o''"
  proof
    assume "long_name = ''-o''"
    then have "length long_name = length ''-o''" by (rule arg_cong)
    with len show False by simp
  qed
  show "long_name \<noteq> ''--output''"
  proof
    assume "long_name = ''--output''"
    then have "length long_name = length ''--output''" by (rule arg_cong)
    with len show False by simp
  qed
qed

text \<open>
  C8, at a concrete run: a name of 300 characters contains no wildcard and names no
  file, and the status query on it raises. The expansion does not record a warning
  and skip the pattern: the error leaves \<open>expandFilePaths\<close> and \<open>main\<close>, and the run is
  aborted, also when other patterns name regular files. The wildcard branch, given a
  directory of that name, catches the same error and records a warning.
\<close>

theorem literal_pattern_status_error_aborts:
  "\<not> has_wildcard long_name \<and>
   status_of long_name_fs long_name = None \<and>
   expand_pattern long_name_fs long_name ([], []) = Inl Unhandled_filesystem_error \<and>
   expandFilePaths long_name_fs [''a.txt'', long_name] = Inl Unhandled_filesystem_error \<and>
   main fnv1a_64 long_name_fs [''merger'', ''a.txt'', long_name] =
     Inl Unhandled_filesystem_error \<and>
   expandFilePaths long_name_fs [''a.txt'', long_name @ ''/*.txt''] =
     Inr ([''a.txt''], [Warning_error_processing_pattern (long_name @ ''/*.txt'')])"
proof -
  note w = long_name_facts(2)
  have s: "status_of long_name_fs long_name = None"
    by (simp add: long_name_fs_def long_name_facts)
  have e: "expand_pattern long_name_fs long_name acc = Inl Unhandled_filesystem_error" for acc
    using w s by (rule expand_pattern_literal_raises)
  have wa: "\<not> has_wildcard ''a.txt''" by (simp add: has_wildcard_def)
  have sa: "status_of long_name_fs ''a.txt'' = Some regular"
    by (simp add: long_name_fs_def sample_fs_def)
  have a: "expand_pattern long_name_fs ''a.txt'' ([], []) = Inr ([''a.txt''], [])"
    using expand_pattern_literal[OF wa sa, of "[]" "[]"] by simp
  have x: "expandFilePaths long_name_fs [''a.txt'', long_name] = Inl Unhandled_filesystem_error"
    by (simp add: expandFilePaths_def a e)
  have m: "main fnv1a_64 long_name_fs [''merger'', ''a.txt'', long_name] =
     Inl Unhandled_filesystem_error"
    by (simp add: main_def long_name_facts x)
  have hw: "has_wildcard (long_name @ ''/*.txt'')" by (simp add: has_wildcard_def)
  have "CHR ''/'' \<notin> set long_name" by (simp add: long_name_def)
  then have "dropWhile (\<lambda>c. c \<noteq> CHR ''/'') (rev (long_name @ ''/*.txt'')) =
      CHR ''/'' # rev long_name"
    by simp
  then have pp: "parent_path_of long_name_fs (long_name @ ''/*.txt'') = long_name"
    by (simp add: long_name_fs_def sample_fs_def)
  have ne: "long_name \<noteq> []" using long_name_facts(1) by auto
  have "expand_pattern long_name_fs (long_name @ ''/*.txt'') ([''a.txt''], []) =
      Inr ([''a.txt''], [] @ [Warning_error_processing_pattern (long_name @ ''/*.txt'')])"
    by (rule expand_pattern_wildcard_catches[OF hw]) (simp add: pp s ne)
  then have g: "expandFilePaths long_name_fs [''a.txt'', long_name @ ''/*.txt''] =
     Inr ([''a.txt''], [Warning_error_processing_pattern (long_name @ ''/*.txt'')])"
    by (simp add: expandFilePaths_def a)
  from w s e[of "([], [])"] x m g show ?thesis by (intro conjI)
qed

section \<open>The command line\<close>

lemma parse_args_append:
  "parse_args before outputFile filePatterns = Inr (out1, pats1) \<Longrightarrow>
     parse_args (before @ later) outputFile filePatterns = parse_args later out1 pats1"
proof (induction before outputFile filePatterns rule: parse_args.induct)
  case (1 outputFile filePatterns)
  then show ?case by simp
next
  case (2 arg args outputFile filePatterns)
  show ?case
  proof (cases "arg = ''-o'' \<or> arg = ''--output''")
    case True
    show ?thesis
    proof (cases args)
      case Nil
      with True "2.prems" show ?thesis by simp
    next
      case (Cons name args')
      with True "2.prems" have "parse_args args' name filePatterns = Inr (out1, pats1)"
        by simp
      from "2.IH"(1)[OF True Cons this] True Cons show ?thesis by simp
    qed
  next
    case False
    with "2.prems" have "parse_args args outputFile (filePatterns @ [arg]) = Inr (out1, pats1)"
      by simp
    from "2.IH"(2)[OF False this] False show ?thesis by simp
  qed
qed

lemma parse_args_no_flags:
  "\<forall>a\<in>set args. a \<noteq> ''-o'' \<and> a \<noteq> ''--output'' \<Longrightarrow>
     parse_args args outputFile filePatterns = Inr (outputFile, filePatterns @ args)"
  by (induction args arbitrary: filePatterns) simp_all

text \<open>
  C9. Arguments none of which is \<open>-o\<close> or \<open>--output\<close> all become patterns, in their
  order, whatever they look like, and leave the output file as it was. Where one of
  the two flags stands after arguments that parse, the argument after it becomes the
  output file, whatever it looks like, and is not a pattern; when no flag follows,
  this is the output file of the whole command line, so the last flag decides. A flag
  as the last argument is the error of a missing file name.
\<close>

theorem parse_args_output_flag:
  shows "((\<forall>a\<in>set args. a \<noteq> ''-o'' \<and> a \<noteq> ''--output'') \<longrightarrow>
            parse_args args outputFile filePatterns = Inr (outputFile, filePatterns @ args)) \<and>
         ((flag = ''-o'' \<or> flag = ''--output'') \<and>
          parse_args before outputFile filePatterns = Inr (out1, pats1) \<and>
          (\<forall>a\<in>set rest. a \<noteq> ''-o'' \<and> a \<noteq> ''--output'') \<longrightarrow>
            parse_args (before @ flag # name # rest) outputFile filePatterns =
              Inr (name, pats1 @ rest)) \<and>
         ((flag = ''-o'' \<or> flag = ''--output'') \<and>
          parse_args before outputFile filePatterns = Inr (out1, pats1) \<longrightarrow>
            parse_args (before @ [flag]) outputFile filePatterns =
              Inl Error_output_requires_filename)"
proof -
  have a: "parse_args args outputFile filePatterns = Inr (outputFile, filePatterns @ args)"
    if "\<forall>a\<in>set args. a \<noteq> ''-o'' \<and> a \<noteq> ''--output''"
    using that by (rule parse_args_no_flags)
  have b: "parse_args (before @ flag # name # rest) outputFile filePatterns =
              Inr (name, pats1 @ rest)"
    if f: "flag = ''-o'' \<or> flag = ''--output''"
      and p: "parse_args before outputFile filePatterns = Inr (out1, pats1)"
      and r: "\<forall>a\<in>set rest. a \<noteq> ''-o'' \<and> a \<noteq> ''--output''"
  proof -
    have "parse_args (before @ flag # name # rest) outputFile filePatterns =
          parse_args (flag # name # rest) out1 pats1"
      using p by (rule parse_args_append)
    also have "\<dots> = parse_args rest name pats1" using f by auto
    also have "\<dots> = Inr (name, pats1 @ rest)" using r by (rule parse_args_no_flags)
    finally show ?thesis .
  qed
  have c: "parse_args (before @ [flag]) outputFile filePatterns =
              Inl Error_output_requires_filename"
    if f: "flag = ''-o'' \<or> flag = ''--output''"
      and p: "parse_args before outputFile filePatterns = Inr (out1, pats1)"
  proof -
    have "parse_args (before @ [flag]) outputFile filePatterns = parse_args [flag] out1 pats1"
      using p by (rule parse_args_append)
    also have "\<dots> = Inl Error_output_requires_filename" using f by auto
    finally show ?thesis .
  qed
  from a b c show ?thesis by blast
qed

theorem parse_args_output_flag_witness:
  "''-o'' \<notin> set [''--help'', ''-x'', ''*.txt''] \<and>
   ''--output'' \<notin> set [''--help'', ''-x'', ''*.txt''] \<and>
   parse_args [''--help'', ''-x'', ''*.txt''] ''merged.txt'' [] =
     Inr (''merged.txt'', [''--help'', ''-x'', ''*.txt'']) \<and>
   parse_args [''a'', ''-o'', ''first'', ''b''] ''merged.txt'' [] = Inr (''first'', [''a'', ''b'']) \<and>
   parse_args ([''a'', ''-o'', ''first'', ''b''] @ ''--output'' # ''*.lst'' # [''c'']) ''merged.txt'' [] =
     Inr (''*.lst'', [''a'', ''b'', ''c'']) \<and>
   parse_args ([''a'', ''-o'', ''first'', ''b''] @ [''--output'']) ''merged.txt'' [] =
     Inl Error_output_requires_filename"
proof -
  have n1: "\<forall>a\<in>set [''--help'', ''-x'', ''*.txt'']. a \<noteq> ''-o'' \<and> a \<noteq> ''--output''"
    by simp
  have p: "parse_args [''a'', ''-o'', ''first'', ''b''] ''merged.txt'' [] = Inr (''first'', [''a'', ''b''])"
    by simp
  have n2: "\<forall>a\<in>set [''c'']. a \<noteq> ''-o'' \<and> a \<noteq> ''--output''" by simp
  have f: "''--output'' = ''-o'' \<or> ''--output'' = ''--output''" by simp
  note inst = parse_args_output_flag[where args = "[''--help'', ''-x'', ''*.txt'']"
      and outputFile = "''merged.txt''" and filePatterns = "[]" and flag = "''--output''"
      and before = "[''a'', ''-o'', ''first'', ''b'']" and ?out1.0 = "''first''"
      and ?pats1.0 = "[''a'', ''b'']" and rest = "[''c'']" and name = "''*.lst''"]
  from inst have "(\<forall>a\<in>set [''--help'', ''-x'', ''*.txt'']. a \<noteq> ''-o'' \<and> a \<noteq> ''--output'') \<longrightarrow>
      parse_args [''--help'', ''-x'', ''*.txt''] ''merged.txt'' [] =
        Inr (''merged.txt'', [] @ [''--help'', ''-x'', ''*.txt''])"
    by (elim conjE)
  with n1 have a: "parse_args [''--help'', ''-x'', ''*.txt''] ''merged.txt'' [] =
        Inr (''merged.txt'', [] @ [''--help'', ''-x'', ''*.txt''])"
    by (rule rev_mp)
  from inst have "(''--output'' = ''-o'' \<or> ''--output'' = ''--output'') \<and>
      parse_args [''a'', ''-o'', ''first'', ''b''] ''merged.txt'' [] = Inr (''first'', [''a'', ''b'']) \<and>
      (\<forall>a\<in>set [''c'']. a \<noteq> ''-o'' \<and> a \<noteq> ''--output'') \<longrightarrow>
      parse_args ([''a'', ''-o'', ''first'', ''b''] @ ''--output'' # ''*.lst'' # [''c'']) ''merged.txt'' [] =
        Inr (''*.lst'', [''a'', ''b''] @ [''c''])"
    by (elim conjE)
  with f p n2 have b: "parse_args ([''a'', ''-o'', ''first'', ''b''] @ ''--output'' # ''*.lst'' # [''c''])
      ''merged.txt'' [] = Inr (''*.lst'', [''a'', ''b''] @ [''c''])"
    by blast
  from inst have "(''--output'' = ''-o'' \<or> ''--output'' = ''--output'') \<and>
      parse_args [''a'', ''-o'', ''first'', ''b''] ''merged.txt'' [] = Inr (''first'', [''a'', ''b'']) \<longrightarrow>
      parse_args ([''a'', ''-o'', ''first'', ''b''] @ [''--output'']) ''merged.txt'' [] =
        Inl Error_output_requires_filename"
    by (elim conjE)
  with f p have c: "parse_args ([''a'', ''-o'', ''first'', ''b''] @ [''--output'']) ''merged.txt'' [] =
        Inl Error_output_requires_filename"
    by blast
  from a have a': "parse_args [''--help'', ''-x'', ''*.txt''] ''merged.txt'' [] =
     Inr (''merged.txt'', [''--help'', ''-x'', ''*.txt''])" by simp
  from b have b': "parse_args ([''a'', ''-o'', ''first'', ''b''] @ ''--output'' # ''*.lst'' # [''c''])
      ''merged.txt'' [] = Inr (''*.lst'', [''a'', ''b'', ''c''])" by simp
  have m1: "''-o'' \<notin> set [''--help'', ''-x'', ''*.txt'']"
    and m2: "''--output'' \<notin> set [''--help'', ''-x'', ''*.txt'']"
    by simp_all
  from m1 m2 a' p b' c show ?thesis by (intro conjI)
qed

section \<open>The main program when no file opens\<close>

lemma weaveMergeDedup_none_opened:
  "\<forall>p\<in>set filePaths. open_file p = None \<Longrightarrow>
     weaveMergeDedup hasher open_file filePaths out =
       (out, map Warning_could_not_open filePaths @ [Error_no_files_opened])"
proof -
  assume none: "\<forall>p\<in>set filePaths. open_file p = None"
  then have "opened_contents open_file filePaths = []"
    by (induction filePaths) simp_all
  moreover from none have "open_warnings open_file filePaths = map Warning_could_not_open filePaths"
    by (induction filePaths) simp_all
  ultimately show ?thesis by (simp add: weaveMergeDedup_eq)
qed

text \<open>
  The three ways of \<open>main\<close> to end without anything to merge. Without a resolved
  file, and without an output file, it returns 1. When files were resolved and the
  output file was created but no input file opens, it reports the error, leaves the
  output file empty and returns 0.
\<close>

lemma main_no_valid_input_files:
  assumes "2 \<le> length argv"
    and "parse_args (tl argv) ''merged.txt'' [] = Inr (outputFile, filePatterns)"
    and "filePatterns \<noteq> []"
    and "expandFilePaths fs filePatterns = Inr ([], warnings)"
  shows "main hasher fs argv =
           Inr \<lparr>exit_code = 1, stderr = warnings @ [Error_no_valid_input_files],
                output_file = None\<rparr>"
  using assms by (simp add: main_def)

lemma main_no_output_file:
  assumes "2 \<le> length argv"
    and "parse_args (tl argv) ''merged.txt'' [] = Inr (outputFile, filePatterns)"
    and "filePatterns \<noteq> []"
    and "expandFilePaths fs filePatterns = Inr (filePaths, warnings)"
    and "filePaths \<noteq> []" and "\<not> can_create fs outputFile"
  shows "\<exists>log. main hasher fs argv = Inr \<lparr>exit_code = 1, stderr = log, output_file = None\<rparr>"
  using assms by (simp add: main_def Let_def)

lemma main_no_file_opened:
  assumes "2 \<le> length argv"
    and "parse_args (tl argv) ''merged.txt'' [] = Inr (outputFile, filePatterns)"
    and "filePatterns \<noteq> []"
    and "expandFilePaths fs filePatterns = Inr (filePaths, warnings)"
    and "filePaths \<noteq> []" and "can_create fs outputFile"
    and "\<forall>p\<in>set filePaths. open_read fs p = None"
  shows "\<exists>log. main hasher fs argv =
           Inr \<lparr>exit_code = 0, stderr = log @ [Error_no_files_opened],
                output_file = Some (outputFile, [])\<rparr>"
  using assms by (simp add: main_def Let_def weaveMergeDedup_none_opened)

text \<open>
  C1, at a concrete run: \<open>a.txt\<close> is a regular file, so it is resolved, but it cannot
  be opened for reading. The error is reported and nothing is written to the output,
  and the value returned by \<open>main\<close> is 0; the same happens when the file is found
  through a wildcard.
\<close>

theorem main_no_file_opened_returns_zero:
  "main fnv1a_64 sample_fs [''merger'', ''a.txt''] =
     Inr \<lparr>exit_code = 0,
          stderr = [Warning_could_not_open ''a.txt'', Error_no_files_opened],
          output_file = Some (''merged.txt'', [])\<rparr> \<and>
   main fnv1a_64 sample_fs [''merger'', ''-o'', ''out.txt'', ''*.txt''] =
     Inr \<lparr>exit_code = 0,
          stderr = [Warning_could_not_open ''./a.txt'', Error_no_files_opened],
          output_file = Some (''out.txt'', [])\<rparr>"
proof -
  have e1: "expandFilePaths sample_fs [''a.txt''] = Inr ([''a.txt''], [])"
    by (simp add: expandFilePaths_def expand_pattern_def has_wildcard_def sample_fs_def)
  have m: "wildcardMatch ''a.txt'' ''*.txt''"
    by (simp add: wildcardMatch_def wildcardMatch_loop.simps skip_stars.simps)
  have e2: "expandFilePaths sample_fs [''*.txt''] = Inr ([''./a.txt''], [])"
    by (simp add: expandFilePaths_def expand_pattern_def has_wildcard_def sample_fs_def m)
  have a: "main fnv1a_64 sample_fs [''merger'', ''a.txt''] =
     Inr \<lparr>exit_code = 0,
          stderr = [Warning_could_not_open ''a.txt'', Error_no_files_opened],
          output_file = Some (''merged.txt'', [])\<rparr>"
    by (simp add: main_def e1 weaveMergeDedup_eq) (simp add: sample_fs_def)
  have b: "main fnv1a_64 sample_fs [''merger'', ''-o'', ''out.txt'', ''*.txt''] =
     Inr \<lparr>exit_code = 0,
          stderr = [Warning_could_not_open ''./a.txt'', Error_no_files_opened],
          output_file = Some (''out.txt'', [])\<rparr>"
    by (simp add: main_def e2 weaveMergeDedup_eq) (simp add: sample_fs_def)
  from a b show ?thesis by (intro conjI)
qed

end
